theory Spec2Isabelle
  imports
    Main
    "HOL-Library.Sublist"
    "HOL-Library.Char_ord"
    "HOL-Library.List_Lexorder"
begin

section \<open>Data model of the dependency analyzer\<close>

text \<open>
  The development follows \<^verbatim>\<open>analyze_dependencies.py\<close>. Python strings are modelled as
  \<^typ>\<open>string\<close>; source text is taken to be ASCII, and the one non-ASCII literal of the
  program (the arrow of a violation label) is written as its UTF-8 bytes. A Python
  \<^verbatim>\<open>dict\<close> keeps insertion order and is modelled as an association list whose keys
  are pairwise distinct.
\<close>

record ModuleInfo =
  path :: string
  "imports" :: "string list"
  exports :: "string list"
  import_count :: nat
  imported_by_count :: nat

type_synonym modules = "(string \<times> ModuleInfo) list"

record CouplingIssue =
  module :: string
  incoming :: nat
  outgoing :: nat
  total :: nat

definition HIGH_COUPLING_THRESHOLD :: nat where
  "HIGH_COUPLING_THRESHOLD = 5"

definition TOTAL_COUPLING_THRESHOLD :: nat where
  "TOTAL_COUPLING_THRESHOLD = 10"

definition is_hub :: "CouplingIssue \<Rightarrow> bool" where
  "is_hub x \<longleftrightarrow>
     incoming x > HIGH_COUPLING_THRESHOLD \<and> outgoing x > HIGH_COUPLING_THRESHOLD"

text \<open>Membership test \<^verbatim>\<open>k in d\<close> and lookup \<^verbatim>\<open>d[k]\<close> of a dictionary.\<close>

definition dict_keys :: "('k \<times> 'v) list \<Rightarrow> 'k list" where
  "dict_keys d = map fst d"

definition dict_has :: "('k \<times> 'v) list \<Rightarrow> 'k \<Rightarrow> bool" where
  "dict_has d k \<longleftrightarrow> k \<in> set (dict_keys d)"

text \<open>Assignment \<^verbatim>\<open>d[k] = v\<close>: an existing key keeps its position, a new key goes last.\<close>

fun dict_set :: "'k \<Rightarrow> 'v \<Rightarrow> ('k \<times> 'v) list \<Rightarrow> ('k \<times> 'v) list" where
  "dict_set k v [] = [(k, v)]"
| "dict_set k v ((k', v') # d) =
     (if k = k' then (k, v) # d else (k', v') # dict_set k v d)"


section \<open>Layer violation detector\<close>

text \<open>
  \<^verbatim>\<open>re.search(pattern, path)\<close> for the patterns of the layer table, none of which holds a
  regular-expression metacharacter: the pattern occurs somewhere in the path.
\<close>

fun re_search :: "string \<Rightarrow> string \<Rightarrow> bool" where
  "re_search pattern [] = (pattern = [])"
| "re_search pattern (c # cs) = (prefix pattern (c # cs) \<or> re_search pattern cs)"

definition layer_patterns :: "(string \<times> string list) list" where
  "layer_patterns =
     [(''presentation'', [''/components/'', ''/pages/'', ''/views/'', ''/ui/'']),
      (''application'', [''/services/'', ''/usecases/'', ''/application/'']),
      (''domain'', [''/domain/'', ''/models/'', ''/entities/'']),
      (''infrastructure'',
         [''/infrastructure/'', ''/repositories/'', ''/adapters/'', ''/db/''])]"

fun get_layer_in :: "(string \<times> string list) list \<Rightarrow> string \<Rightarrow> string option" where
  "get_layer_in [] p = None"
| "get_layer_in ((layer, patterns) # rest) p =
     (if list_ex (\<lambda>pattern. re_search pattern p) patterns then Some layer
      else get_layer_in rest p)"

definition get_layer :: "string \<Rightarrow> string option" where
  "get_layer p = get_layer_in layer_patterns p"

definition allowed :: "(string \<times> string list) list" where
  "allowed =
     [(''presentation'', [''application'', ''domain'']),
      (''application'', [''domain'']),
      (''domain'', []),
      (''infrastructure'', [''domain''])]"

text \<open>\<^verbatim>\<open>allowed.get(source_layer, [])\<close>\<close>

definition allowed_get :: "string \<Rightarrow> string list" where
  "allowed_get layer = (case map_of allowed layer of None \<Rightarrow> [] | Some ls \<Rightarrow> ls)"

text \<open>The label \<^verbatim>\<open>f"{source_layer} -> {target_layer}"\<close>, its arrow being U+2192.\<close>

definition arrow :: string where
  "arrow = [CHR 0x20, CHR 0xE2, CHR 0x86, CHR 0x92, CHR 0x20]"

definition violation_type :: "string \<Rightarrow> string \<Rightarrow> string" where
  "violation_type source_layer target_layer = source_layer @ arrow @ target_layer"

text \<open>The inner loop over \<^verbatim>\<open>info.imports\<close> for one module whose layer is known.\<close>

fun violations_of ::
  "string \<Rightarrow> string \<Rightarrow> string list \<Rightarrow> (string \<times> string \<times> string) list" where
  "violations_of p source_layer [] = []"
| "violations_of p source_layer (imported # rest) =
     (case get_layer imported of
        None \<Rightarrow> violations_of p source_layer rest
      | Some target_layer \<Rightarrow>
          (if target_layer \<notin> set (allowed_get source_layer) \<and> target_layer \<noteq> source_layer
           then (p, imported, violation_type source_layer target_layer)
                  # violations_of p source_layer rest
           else violations_of p source_layer rest))"

fun detect_layer_violations :: "modules \<Rightarrow> (string \<times> string \<times> string) list" where
  "detect_layer_violations [] = []"
| "detect_layer_violations ((p, info) # rest) =
     (case get_layer p of
        None \<Rightarrow> detect_layer_violations rest
      | Some source_layer \<Rightarrow>
          violations_of p source_layer (imports info) @ detect_layer_violations rest)"

text \<open>An edge of the graph: a module of the map and one entry of its import list.\<close>

definition edges :: "modules \<Rightarrow> (string \<times> string) set" where
  "edges ms = {(p, i). \<exists>info. (p, info) \<in> set ms \<and> i \<in> set (imports info)}"


section \<open>Coupling analyzer\<close>

text \<open>
  A \<^verbatim>\<open>defaultdict(int)\<close> is a function from keys to counts that is 0 where nothing was
  counted. The two counting loops of the program (in \<^verbatim>\<open>analyze_coupling\<close> and in
  \<^verbatim>\<open>analyze_directory\<close>) differ only in the guard \<^verbatim>\<open>if imp in modules\<close>, here \<open>keep\<close>.
\<close>

fun count_imports :: "(string \<Rightarrow> bool) \<Rightarrow> string list \<Rightarrow> (string \<Rightarrow> nat) \<Rightarrow> (string \<Rightarrow> nat)" where
  "count_imports keep [] c = c"
| "count_imports keep (imp # rest) c =
     count_imports keep rest (if keep imp then c(imp := c imp + 1) else c)"

fun count_modules :: "(string \<Rightarrow> bool) \<Rightarrow> modules \<Rightarrow> (string \<Rightarrow> nat) \<Rightarrow> (string \<Rightarrow> nat)" where
  "count_modules keep [] c = c"
| "count_modules keep ((p, info) # rest) c =
     count_modules keep rest (count_imports keep (imports info) c)"

fun coupling_issues_of :: "(string \<Rightarrow> nat) \<Rightarrow> modules \<Rightarrow> CouplingIssue list" where
  "coupling_issues_of imported_by [] = []"
| "coupling_issues_of imported_by ((p, info) # rest) =
     (let outgoing = import_count info;
          incoming = imported_by p;
          total = incoming + outgoing
      in if total > TOTAL_COUPLING_THRESHOLD
            \<or> (incoming > HIGH_COUPLING_THRESHOLD \<and> outgoing > HIGH_COUPLING_THRESHOLD)
         then \<lparr>module = p, incoming = incoming, outgoing = outgoing, total = total\<rparr>
                # coupling_issues_of imported_by rest
         else coupling_issues_of imported_by rest)"

text \<open>
  \<^verbatim>\<open>sorted(issues, key=lambda x: x.total, reverse=True)\<close>: Python's sort is stable, also
  with \<^verbatim>\<open>reverse=True\<close>, so issues of equal total keep their order.
\<close>

definition sorted_by_total_reverse :: "CouplingIssue list \<Rightarrow> CouplingIssue list" where
  "sorted_by_total_reverse issues = sort_key (\<lambda>x. - int (total x)) issues"

definition analyze_coupling :: "modules \<Rightarrow> CouplingIssue list" where
  "analyze_coupling ms =
     sorted_by_total_reverse
       (coupling_issues_of (count_modules (dict_has ms) ms (\<lambda>_. 0)) ms)"

text \<open>Two example modules of equal coupling: each imports the same eleven files.\<close>

definition externals :: "string list" where
  "externals =
     [''e0'', ''e1'', ''e2'', ''e3'', ''e4'', ''e5'', ''e6'', ''e7'', ''e8'', ''e9'', ''e10'']"

definition tied :: "string \<Rightarrow> string \<times> ModuleInfo" where
  "tied p =
     (p, \<lparr>path = p, imports = externals, exports = [], import_count = 11,
          imported_by_count = 0\<rparr>)"


section \<open>Cycle detector\<close>

text \<open>
  The exceptions the detector's operations can raise: \<^verbatim>\<open>list.index\<close> a \<^verbatim>\<open>ValueError\<close>,
  \<^verbatim>\<open>set.remove\<close> a \<^verbatim>\<open>KeyError\<close>.
\<close>

datatype error = ValueError | KeyError

record CircularDependency =
  cycle :: "string list"

text \<open>The variables \<^verbatim>\<open>cycles\<close>, \<^verbatim>\<open>visited\<close> and \<^verbatim>\<open>rec_stack\<close> that the nested function shares.\<close>

record dfs_state =
  cycles :: "CircularDependency list"
  visited :: "string set"
  rec_stack :: "string set"

text \<open>\<^verbatim>\<open>path.index(node)\<close>: the first position of the node, \<open>None\<close> where Python raises.\<close>

fun index_of :: "'a list \<Rightarrow> 'a \<Rightarrow> nat option" where
  "index_of [] x = None"
| "index_of (y # ys) x = (if x = y then Some 0 else map_option Suc (index_of ys x))"

text \<open>
  The nested function \<^verbatim>\<open>dfs(node, path)\<close> and, as \<open>dfs_imports\<close>, the loop over
  \<^verbatim>\<open>modules[node].imports\<close> in its body; every call of the loop gets its own copy of the
  path. The search ends because each call that goes on marks a key of the map as visited:
  the measure is the number of keys not yet visited, then the length of the import list
  still to do.
\<close>

definition dfs_measure ::
  "(modules \<times> string \<times> string list \<times> dfs_state)
     + (modules \<times> string list \<times> string list \<times> dfs_state) \<Rightarrow> nat \<times> nat" where
  "dfs_measure x =
     (case x of
        Inl (ms, node, pth, st) \<Rightarrow> (card (set (dict_keys ms) - visited st), 0)
      | Inr (ms, is, pth, st) \<Rightarrow> (card (set (dict_keys ms) - visited st), Suc (length is)))"

function dfs :: "modules \<Rightarrow> string \<Rightarrow> string list \<Rightarrow> dfs_state \<Rightarrow> error + dfs_state"
  and dfs_imports :: "modules \<Rightarrow> string list \<Rightarrow> string list \<Rightarrow> dfs_state \<Rightarrow> error + dfs_state"
where
  "dfs ms node pth st =
     (if node \<in> rec_stack st then
        (case index_of pth node of
           None \<Rightarrow> Inl ValueError
         | Some cycle_start \<Rightarrow>
             Inr (st\<lparr>cycles := cycles st @ [\<lparr>cycle = drop cycle_start pth\<rparr>]\<rparr>))
      else if node \<in> visited st then Inr st
      else
        (let st1 = st\<lparr>visited := insert node (visited st),
                      rec_stack := insert node (rec_stack st)\<rparr>;
             pth1 = pth @ [node]
         in case (case map_of ms node of
                    None \<Rightarrow> Inr st1
                  | Some info \<Rightarrow> dfs_imports ms (imports info) pth1 st1) of
              Inl e \<Rightarrow> Inl e
            | Inr st2 \<Rightarrow>
                if node \<in> rec_stack st2
                then Inr (st2\<lparr>rec_stack := rec_stack st2 - {node}\<rparr>)
                else Inl KeyError))"
| "dfs_imports ms [] pth st = Inr st"
| "dfs_imports ms (imported # rest) pth st =
     (if dict_has ms imported then
        (case dfs ms imported pth st of
           Inl e \<Rightarrow> Inl e
         | Inr st' \<Rightarrow> dfs_imports ms rest pth st')
      else dfs_imports ms rest pth st)"
  by pat_completeness auto

text \<open>The loop \<^verbatim>\<open>for module in modules\<close> that starts a search at each unvisited key.\<close>

fun dfs_roots :: "modules \<Rightarrow> string list \<Rightarrow> dfs_state \<Rightarrow> error + dfs_state" where
  "dfs_roots ms [] st = Inr st"
| "dfs_roots ms (m # rest) st =
     (if m \<notin> visited st then
        (case dfs ms m [] st of
           Inl e \<Rightarrow> Inl e
         | Inr st' \<Rightarrow> dfs_roots ms rest st')
      else dfs_roots ms rest st)"

text \<open>The deduplication loop; \<^verbatim>\<open>normalized\<close> is the sorted tuple of the cycle's paths.\<close>

fun unique_cycles ::
  "CircularDependency list \<Rightarrow> string list set \<Rightarrow> CircularDependency list" where
  "unique_cycles [] seen_cycles = []"
| "unique_cycles (c # rest) seen_cycles =
     (let normalized = sort (cycle c)
      in if normalized \<notin> seen_cycles
         then c # unique_cycles rest (insert normalized seen_cycles)
         else unique_cycles rest seen_cycles)"

definition dfs_init :: dfs_state where
  "dfs_init = \<lparr>cycles = [], visited = {}, rec_stack = {}\<rparr>"

text \<open>The list \<^verbatim>\<open>cycles\<close> when the search is over, and the function's result.\<close>

definition emitted_cycles :: "modules \<Rightarrow> error + CircularDependency list" where
  "emitted_cycles ms =
     (case dfs_roots ms (dict_keys ms) dfs_init of
        Inl e \<Rightarrow> Inl e
      | Inr st \<Rightarrow> Inr (cycles st))"

definition find_circular_dependencies :: "modules \<Rightarrow> error + CircularDependency list" where
  "find_circular_dependencies ms =
     (case emitted_cycles ms of
        Inl e \<Rightarrow> Inl e
      | Inr cs \<Rightarrow> Inr (unique_cycles cs {}))"

text \<open>The reading of the deduplication policy: keep the first cycle of each member set.\<close>

fun first_of_each_member_set :: "CircularDependency list \<Rightarrow> CircularDependency list" where
  "first_of_each_member_set [] = []"
| "first_of_each_member_set (c # rest) =
     c # first_of_each_member_set (filter (\<lambda>d. set (cycle d) \<noteq> set (cycle c)) rest)"

text \<open>The module map with every import that is not a key of the map removed.\<close>

definition internal_only :: "modules \<Rightarrow> modules" where
  "internal_only ms =
     map (\<lambda>(p, info). (p, info\<lparr>imports := filter (dict_has ms) (imports info)\<rparr>)) ms"

text \<open>Example graphs: an entry of the map as \<^verbatim>\<open>analyze_file\<close> makes it, and two maps.\<close>

definition module_info :: "string \<Rightarrow> string list \<Rightarrow> string \<times> ModuleInfo" where
  "module_info p is =
     (p, \<lparr>path = p, imports = is, exports = [], import_count = length is,
          imported_by_count = 0\<rparr>)"

definition shortcut_graph :: modules where
  "shortcut_graph =
     [module_info ''a'' [''b'', ''c''], module_info ''b'' [''c''], module_info ''c'' [''a'']]"

definition repeated_import :: modules where
  "repeated_import = [module_info ''a'' [''a'', ''a'']]"


section \<open>File system and path operations\<close>

text \<open>
  What the program asks of its environment: the file-system predicates
  \<^verbatim>\<open>os.path.isfile\<close> and \<^verbatim>\<open>os.path.exists\<close> (both return False rather than raise),
  the working directory, the text of a file (\<open>None\<close> where opening or reading raises),
  the directory tree that \<^verbatim>\<open>os.walk\<close> finds below a path, the order in which a Python
  set of strings is listed, and the matches of the regular expressions for
  JavaScript/TypeScript imports and for exports.
\<close>

datatype dir_tree = Dir (files: "string list") (subdirs: "(string \<times> dir_tree) list")

record env =
  isfile :: "string \<Rightarrow> bool"
  exists :: "string \<Rightarrow> bool"
  getcwd :: string
  read_text :: "string \<Rightarrow> string option"
  tree_at :: "string \<Rightarrow> dir_tree option"
  list_of_set :: "string list \<Rightarrow> string list"
  js_ts_import_paths :: "string \<Rightarrow> string list"
  export_names :: "string \<Rightarrow> string list"

text \<open>\<^verbatim>\<open>s.split('/')\<close> and \<^verbatim>\<open>'/'.join(parts)\<close>\<close>

fun split_slash :: "string \<Rightarrow> string list" where
  "split_slash [] = [[]]"
| "split_slash (c # cs) =
     (if c = CHR ''/'' then [] # split_slash cs
      else (case split_slash cs of [] \<Rightarrow> [[c]] | p # ps \<Rightarrow> (c # p) # ps))"

fun join_slash :: "string list \<Rightarrow> string" where
  "join_slash [] = []"
| "join_slash [p] = p"
| "join_slash (p # q # ps) = p @ ''/'' @ join_slash (q # ps)"

text \<open>
  The functions of \<^verbatim>\<open>posixpath\<close> the program calls, after the library's source.
  \<^verbatim>\<open>dirname\<close>: everything up to the last slash, trailing slashes removed unless the
  head consists of slashes only.
\<close>

definition rstrip_slash :: "string \<Rightarrow> string" where
  "rstrip_slash s = rev (dropWhile (\<lambda>c. c = CHR ''/'') (rev s))"

definition dirname :: "string \<Rightarrow> string" where
  "dirname p =
     (let head = rev (dropWhile (\<lambda>c. c \<noteq> CHR ''/'') (rev p))
      in if head \<noteq> [] \<and> head \<noteq> replicate (length head) CHR ''/''
         then rstrip_slash head else head)"

text \<open>\<^verbatim>\<open>os.path.join(a, b)\<close>\<close>

definition join :: "string \<Rightarrow> string \<Rightarrow> string" where
  "join a b =
     (if prefix ''/'' b then b
      else if a = [] \<or> suffix ''/'' a then a @ b
      else a @ ''/'' @ b)"

text \<open>\<^verbatim>\<open>os.path.normpath\<close>: the loop over the components, then the leading slashes.\<close>

fun normpath_comps :: "nat \<Rightarrow> string list \<Rightarrow> string list \<Rightarrow> string list" where
  "normpath_comps initial_slashes [] new_comps = new_comps"
| "normpath_comps initial_slashes (part # parts) new_comps =
     (if part = [] \<or> part = ''.'' then normpath_comps initial_slashes parts new_comps
      else if part \<noteq> ''..'' \<or> (initial_slashes = 0 \<and> new_comps = [])
                \<or> (new_comps \<noteq> [] \<and> last new_comps = ''..'')
      then normpath_comps initial_slashes parts (new_comps @ [part])
      else if new_comps \<noteq> [] then normpath_comps initial_slashes parts (butlast new_comps)
      else normpath_comps initial_slashes parts new_comps)"

definition normpath :: "string \<Rightarrow> string" where
  "normpath p =
     (if p = [] then ''.''
      else
        let initial_slashes =
              (if prefix ''/'' p then
                 (if prefix ''//'' p \<and> \<not> prefix ''///'' p then 2 else 1)
               else 0);
            p' = replicate initial_slashes CHR ''/''
                   @ join_slash (normpath_comps initial_slashes (split_slash p) [])
        in if p' = [] then ''.'' else p')"

definition abspath :: "env \<Rightarrow> string \<Rightarrow> string" where
  "abspath e p = normpath (if prefix ''/'' p then p else join (getcwd e) p)"

text \<open>
  \<^verbatim>\<open>os.path.relpath(path, start)\<close>; \<open>None\<close> stands for its \<^verbatim>\<open>ValueError\<close>, raised for
  an empty path. The components \<^verbatim>\<open>[x for x in abspath(p).split('/') if x]\<close> hold no slash,
  so joining them with \<^verbatim>\<open>os.path.join\<close> puts one slash between neighbours.
\<close>

definition path_list :: "env \<Rightarrow> string \<Rightarrow> string list" where
  "path_list e p = filter (\<lambda>x. x \<noteq> []) (split_slash (abspath e p))"

definition relpath :: "env \<Rightarrow> string \<Rightarrow> string \<Rightarrow> string option" where
  "relpath e p start =
     (if p = [] then None
      else
        let start_list = path_list e start;
            p_list = path_list e p;
            i = length (longest_common_prefix start_list p_list);
            rel_list = replicate (length start_list - i) ''..'' @ drop i p_list
        in Some (if rel_list = [] then ''.'' else join_slash rel_list))"

text \<open>\<^verbatim>\<open>normalize_path\<close> catches the \<^verbatim>\<open>ValueError\<close> and returns the path unchanged.\<close>

definition normalize_path :: "env \<Rightarrow> string \<Rightarrow> string \<Rightarrow> string" where
  "normalize_path e p base_dir =
     (case relpath e p base_dir of Some r \<Rightarrow> r | None \<Rightarrow> p)"


section \<open>Import resolver\<close>

definition probe_extensions :: "string list" where
  "probe_extensions = ['''', ''.ts'', ''.tsx'', ''.js'', ''.jsx'', ''.py'', ''/index.ts'', ''/index.js'']"

text \<open>The loop \<^verbatim>\<open>for ext in [...]\<close> at the end of \<^verbatim>\<open>resolve_import\<close>.\<close>

fun try_extensions :: "env \<Rightarrow> string \<Rightarrow> string \<Rightarrow> string list \<Rightarrow> string option" where
  "try_extensions e base_dir resolved [] = None"
| "try_extensions e base_dir resolved (ext # rest) =
     (let full_path = resolved @ ext
      in if isfile e full_path then Some (normalize_path e full_path base_dir)
         else try_extensions e base_dir resolved rest)"

text \<open>The loop \<^verbatim>\<open>for _ in range(up_count): target_dir = os.path.dirname(target_dir)\<close>.\<close>

fun dirname_times :: "nat \<Rightarrow> string \<Rightarrow> string" where
  "dirname_times 0 target_dir = target_dir"
| "dirname_times (Suc n) target_dir = dirname_times n (dirname target_dir)"

text \<open>
  The variable \<^verbatim>\<open>resolved\<close> before the extensions are tried; \<open>None\<close> is the early
  \<^verbatim>\<open>return None\<close> for an external package.
\<close>

definition resolved_path :: "env \<Rightarrow> string \<Rightarrow> string \<Rightarrow> string \<Rightarrow> string option" where
  "resolved_path e import_path current_file base_dir =
     (if prefix ''.'' import_path then
        (let current_dir = dirname current_file
         in if prefix ''./'' import_path then Some (join current_dir (drop 2 import_path))
            else if prefix ''../'' import_path then
              (let parts = split_slash import_path;
                   up_count = length (filter (\<lambda>p. p = ''..'') parts);
                   remaining = join_slash (filter (\<lambda>p. p \<noteq> ''..'') parts);
                   target_dir = dirname_times up_count current_dir
               in Some (join target_dir remaining))
            else Some (join current_dir (drop 1 import_path)))
      else if prefix ''@/'' import_path \<or> prefix ''~/'' import_path then
        Some (join base_dir (drop 2 import_path))
      else if \<not> prefix ''/'' import_path then
        (let potential_local = join base_dir import_path
         in if exists e potential_local \<or> exists e (potential_local @ ''.ts'')
            then Some potential_local else None)
      else Some import_path)"

definition resolve_import :: "env \<Rightarrow> string \<Rightarrow> string \<Rightarrow> string \<Rightarrow> string option" where
  "resolve_import e import_path current_file base_dir =
     (case resolved_path e import_path current_file base_dir of
        None \<Rightarrow> None
      | Some resolved \<Rightarrow> try_extensions e base_dir resolved probe_extensions)"


section \<open>Import extractor for Python files\<close>

text \<open>
  The character classes \<^verbatim>\<open>\s\<close> and \<^verbatim>\<open>[\w.]\<close> on ASCII text.
\<close>

definition is_space :: "char \<Rightarrow> bool" where
  "is_space c \<longleftrightarrow>
     c \<in> set [CHR 0x20, CHR 0x09, CHR 0x0A, CHR 0x0B, CHR 0x0C, CHR 0x0D,
               CHR 0x1C, CHR 0x1D, CHR 0x1E, CHR 0x1F]"

definition is_word :: "char \<Rightarrow> bool" where
  "is_word c \<longleftrightarrow>
     (let n = (of_char c :: nat)
      in (48 \<le> n \<and> n \<le> 57) \<or> (65 \<le> n \<and> n \<le> 90) \<or> (97 \<le> n \<and> n \<le> 122) \<or> n = 95)"

definition is_dotted :: "char \<Rightarrow> bool" where
  "is_dotted c \<longleftrightarrow> is_word c \<or> c = CHR ''.''"

text \<open>
  A match of \<^verbatim>\<open>from\s+([\w.]+)\s+import\<close> at the head of a text: group 1 and the text
  after the match. The three repetitions are greedy and each is followed by a character
  outside its class, so the longest runs are the only way to match.
\<close>

definition match_from :: "string \<Rightarrow> (string \<times> string) option" where
  "match_from s =
     (if prefix ''from'' s then
        (let s1 = drop 4 s;
             s2 = dropWhile is_space s1;
             module_path = takeWhile is_dotted s2;
             s3 = dropWhile is_dotted s2;
             s4 = dropWhile is_space s3
         in if takeWhile is_space s1 \<noteq> [] \<and> module_path \<noteq> []
               \<and> takeWhile is_space s3 \<noteq> [] \<and> prefix ''import'' s4
            then Some (module_path, drop 6 s4) else None)
      else None)"

text \<open>A match of \<^verbatim>\<open>import\s+([\w.]+)\<close> at the head of a text.\<close>

definition match_import :: "string \<Rightarrow> (string \<times> string) option" where
  "match_import s =
     (if prefix ''import'' s then
        (let s1 = drop 6 s;
             s2 = dropWhile is_space s1;
             module_path = takeWhile is_dotted s2
         in if takeWhile is_space s1 \<noteq> [] \<and> module_path \<noteq> []
            then Some (module_path, dropWhile is_dotted s2) else None)
      else None)"

text \<open>
  \<^verbatim>\<open>re.finditer(r'from\s+([\w.]+)\s+import', content)\<close>: the matches from left to right,
  the search going on where the last match ended; the list holds group 1 of each.
\<close>

function finditer_from :: "string \<Rightarrow> string list" where
  "finditer_from [] = []"
| "finditer_from (c # cs) =
     (case match_from (c # cs) of
        Some (module_path, rest) \<Rightarrow> module_path # finditer_from rest
      | None \<Rightarrow> finditer_from cs)"
  by pat_completeness auto

text \<open>
  \<^verbatim>\<open>re.finditer(r'^import\s+([\w.]+)', content, re.MULTILINE)\<close>: \<^verbatim>\<open>^\<close> matches at the
  start of the text and after each newline; \<open>line_start\<close> says whether the head of the
  text is such a position. A match ends in a character of \<^verbatim>\<open>[\w.]\<close>, so the text after
  it is not at a line start.
\<close>

function finditer_import :: "bool \<Rightarrow> string \<Rightarrow> string list" where
  "finditer_import line_start [] = []"
| "finditer_import line_start (c # cs) =
     (case (if line_start then match_import (c # cs) else None) of
        Some (module_path, rest) \<Rightarrow> module_path # finditer_import False rest
      | None \<Rightarrow> finditer_import (c = CHR 0x0A) cs)"
  by pat_completeness auto

text \<open>\<^verbatim>\<open>module_path.replace('.', '/')\<close>\<close>

definition dots_to_slashes :: "string \<Rightarrow> string" where
  "dots_to_slashes module_path = map (\<lambda>c. if c = CHR ''.'' then CHR ''/'' else c) module_path"

text \<open>
  The body shared by all the extraction loops: resolve each path and append the result
  if it is truthy (neither \<^verbatim>\<open>None\<close> nor the empty string).
\<close>

fun resolve_all :: "env \<Rightarrow> string list \<Rightarrow> string \<Rightarrow> string \<Rightarrow> string list" where
  "resolve_all e [] filepath base_dir = []"
| "resolve_all e (import_path # rest) filepath base_dir =
     (case resolve_import e import_path filepath base_dir of
        None \<Rightarrow> resolve_all e rest filepath base_dir
      | Some resolved \<Rightarrow>
          (if resolved \<noteq> [] then resolved # resolve_all e rest filepath base_dir
           else resolve_all e rest filepath base_dir))"

definition extract_imports_python :: "env \<Rightarrow> string \<Rightarrow> string \<Rightarrow> string \<Rightarrow> string list" where
  "extract_imports_python e content filepath base_dir =
     resolve_all e (map dots_to_slashes (finditer_from content)) filepath base_dir
     @ resolve_all e (map dots_to_slashes (finditer_import True content)) filepath base_dir"

text \<open>
  \<^verbatim>\<open>extract_imports_js_ts\<close>: the three patterns are matched by the environment, which
  gives group 1 of the matches of the first pattern, then of the second, then of the third.
\<close>

definition extract_imports_js_ts :: "env \<Rightarrow> string \<Rightarrow> string \<Rightarrow> string \<Rightarrow> string list" where
  "extract_imports_js_ts e content filepath base_dir =
     resolve_all e (js_ts_import_paths e content) filepath base_dir"


section \<open>Graph builder\<close>

text \<open>\<^verbatim>\<open>Path(filepath).suffix.lower()\<close>, after \<^verbatim>\<open>pathlib\<close>: the name is the last component
  that is neither empty nor a single dot; the suffix starts at the last dot of the name,
  if that dot is neither its first nor its last character.\<close>

definition path_name :: "string \<Rightarrow> string" where
  "path_name p =
     (case filter (\<lambda>part. part \<noteq> [] \<and> part \<noteq> ''.'') (split_slash p) of
        [] \<Rightarrow> []
      | part # parts \<Rightarrow> last (part # parts))"

definition path_suffix :: "string \<Rightarrow> string" where
  "path_suffix p =
     (let name = path_name p;
          after_dot = rev (takeWhile (\<lambda>c. c \<noteq> CHR ''.'') (rev name))
      in if CHR ''.'' \<in> set name \<and> after_dot \<noteq> [] \<and> length after_dot + 1 < length name
         then CHR ''.'' # after_dot else [])"

definition lower_char :: "char \<Rightarrow> char" where
  "lower_char c =
     (let n = (of_char c :: nat) in if 65 \<le> n \<and> n \<le> 90 then char_of (n + 32) else c)"

definition lower :: "string \<Rightarrow> string" where
  "lower s = map lower_char s"

text \<open>
  \<^verbatim>\<open>analyze_file\<close>. \<open>None\<close> is returned where the file cannot be read. The export names
  are matched by the environment; they take no part in the graph.
\<close>

definition analyze_file :: "env \<Rightarrow> string \<Rightarrow> string \<Rightarrow> ModuleInfo option" where
  "analyze_file e filepath base_dir =
     (case read_text e filepath of
        None \<Rightarrow> None
      | Some content \<Rightarrow>
          (let rel_path = normalize_path e filepath base_dir;
               ext = lower (path_suffix filepath);
               found =
                 (if ext \<in> set [''.js'', ''.ts'', ''.jsx'', ''.tsx'', ''.mjs'']
                  then extract_imports_js_ts e content filepath base_dir
                  else if ext = ''.py''
                  then extract_imports_python e content filepath base_dir
                  else [])
           in Some \<lparr>path = rel_path,
                     imports = list_of_set e found,
                     exports = export_names e content,
                     import_count = card (set found),
                     imported_by_count = 0\<rparr>))"

definition extensions :: "string list" where
  "extensions = [''.js'', ''.ts'', ''.jsx'', ''.tsx'', ''.py'', ''.mjs'']"

definition excluded_dirs :: "string list" where
  "excluded_dirs = [''node_modules'', ''.git'', ''__pycache__'', ''dist'', ''build'', ''.venv'']"

text \<open>
  \<^verbatim>\<open>os.walk(dirpath)\<close>, top down, with the pruning \<^verbatim>\<open>dirs[:] = [...]\<close> of the loop body:
  the directories visited, each with its file names.
\<close>

fun walk :: "string \<Rightarrow> dir_tree \<Rightarrow> (string \<times> string list) list"
  and walk_dirs :: "string \<Rightarrow> (string \<times> dir_tree) list \<Rightarrow> (string \<times> string list) list"
where
  "walk root (Dir fs ds) = (root, fs) # walk_dirs root ds"
| "walk_dirs root [] = []"
| "walk_dirs root ((d, t) # rest) =
     (if d \<in> set excluded_dirs then walk_dirs root rest
      else walk (join root d) t @ walk_dirs root rest)"

text \<open>The loop \<^verbatim>\<open>for filename in files\<close> and the loop over the walk.\<close>

fun scan_files :: "env \<Rightarrow> string \<Rightarrow> string \<Rightarrow> string list \<Rightarrow> modules \<Rightarrow> modules" where
  "scan_files e base_dir root [] ms = ms"
| "scan_files e base_dir root (filename # rest) ms =
     (if list_ex (\<lambda>ext. suffix ext filename) extensions then
        (let filepath = join root filename
         in case analyze_file e filepath base_dir of
              None \<Rightarrow> scan_files e base_dir root rest ms
            | Some info \<Rightarrow> scan_files e base_dir root rest (dict_set (path info) info ms))
      else scan_files e base_dir root rest ms)"

fun scan_walk :: "env \<Rightarrow> string \<Rightarrow> (string \<times> string list) list \<Rightarrow> modules \<Rightarrow> modules" where
  "scan_walk e base_dir [] ms = ms"
| "scan_walk e base_dir ((root, fs) # rest) ms =
     scan_walk e base_dir rest (scan_files e base_dir root fs ms)"

text \<open>The second pass of \<^verbatim>\<open>analyze_directory\<close>: count, then store the counts.\<close>

definition update_imported_by :: "modules \<Rightarrow> modules" where
  "update_imported_by ms =
     (let imported_by = count_modules (\<lambda>imp. True) ms (\<lambda>p. 0)
      in map (\<lambda>(p, info). (p, info\<lparr>imported_by_count := imported_by p\<rparr>)) ms)"

text \<open>The module map of \<^verbatim>\<open>analyze_directory\<close> when the analyses start.\<close>

definition build_modules :: "env \<Rightarrow> string \<Rightarrow> modules" where
  "build_modules e dirpath =
     (let base_dir = abspath e dirpath;
          visited_dirs = (case tree_at e dirpath of None \<Rightarrow> [] | Some t \<Rightarrow> walk dirpath t)
      in update_imported_by (scan_walk e base_dir visited_dirs []))"

record DependencyReport =
  modules :: modules
  circular_dependencies :: "CircularDependency list"
  coupling_issues :: "CouplingIssue list"
  layer_violations :: "(string \<times> string \<times> string) list"

definition analyze_directory :: "env \<Rightarrow> string \<Rightarrow> error + DependencyReport" where
  "analyze_directory e dirpath =
     (let ms = build_modules e dirpath
      in case find_circular_dependencies ms of
           Inl err \<Rightarrow> Inl err
         | Inr found_cycles \<Rightarrow>
             Inr \<lparr>modules = ms,
                  circular_dependencies = found_cycles,
                  coupling_issues = analyze_coupling ms,
                  layer_violations = detect_layer_violations ms\<rparr>)"

text \<open>A Python set lists each of its elements once, in an order of its own.\<close>

definition lists_sets :: "env \<Rightarrow> bool" where
  "lists_sets e \<longleftrightarrow> (\<forall>xs. distinct (list_of_set e xs) \<and> set (list_of_set e xs) = set xs)"

text \<open>What the first pass establishes for every entry of the map.\<close>

definition well_formed :: "modules \<Rightarrow> bool" where
  "well_formed ms \<longleftrightarrow>
     distinct (dict_keys ms)
     \<and> (\<forall>(p, info) \<in> set ms.
           path info = p \<and> distinct (imports info) \<and> import_count info = length (imports info))"

text \<open>
  Example environments. A file system without links, given by its working directory, its
  regular files and its directories (absolute, normalized paths): a path names what its
  absolute, normalized form names, and a path with a trailing slash names no regular file.
\<close>

definition plain_fs ::
  "string \<Rightarrow> string list \<Rightarrow> string list \<Rightarrow> (string \<Rightarrow> string option)
     \<Rightarrow> (string \<Rightarrow> dir_tree option) \<Rightarrow> env" where
  "plain_fs cwd regular_files directories texts trees =
     \<lparr>isfile = (\<lambda>p. p \<noteq> [] \<and> last p \<noteq> CHR ''/''
                 \<and> normpath (if prefix ''/'' p then p else join cwd p) \<in> set regular_files),
      exists = (\<lambda>p. p \<noteq> []
                 \<and> ((last p \<noteq> CHR ''/''
                      \<and> normpath (if prefix ''/'' p then p else join cwd p) \<in> set regular_files)
                     \<or> normpath (if prefix ''/'' p then p else join cwd p) \<in> set directories)),
      getcwd = cwd,
      read_text = texts,
      tree_at = trees,
      list_of_set = remdups,
      js_ts_import_paths = (\<lambda>content. []),
      export_names = (\<lambda>content. [])\<rparr>"

text \<open>
  A Python project: \<^verbatim>\<open>m.py\<close> imports the data file \<^verbatim>\<open>data\<close>, which is no module, and
  \<^verbatim>\<open>pkg.py\<close>, beside the package directory \<^verbatim>\<open>pkg\<close>, holds one comment line.
\<close>

definition py_project :: env where
  "py_project =
     plain_fs ''/''
       [''/proj/m.py'', ''/proj/pkg.py'', ''/proj/data'']
       [''/'', ''/proj'', ''/proj/pkg'']
       (\<lambda>p. if p = ''/proj/m.py'' then Some ''from data import rows''
            else if p = ''/proj/pkg.py'' then Some ''# from pkg import y''
            else None)
       (\<lambda>p. if p = ''/proj''
            then Some (Dir [''m.py'', ''pkg.py'', ''data''] [(''pkg'', Dir [] [])])
            else None)"

text \<open>A Python project whose one module imports eleven data files.\<close>

definition data_lines :: string where
  "data_lines =
     ''import d0\<newline>import d1\<newline>import d2\<newline>import d3\<newline>import d4\<newline>import d5\<newline>''
     @ ''import d6\<newline>import d7\<newline>import d8\<newline>import d9\<newline>import d10\<newline>''"

definition data_names :: "string list" where
  "data_names = [''d0'', ''d1'', ''d2'', ''d3'', ''d4'', ''d5'', ''d6'', ''d7'', ''d8'', ''d9'', ''d10'']"

definition loader_project :: env where
  "loader_project =
     plain_fs ''/''
       (''/proj/load.py'' # map (\<lambda>name. ''/proj/'' @ name) data_names)
       [''/'', ''/proj'']
       (\<lambda>p. if p = ''/proj/load.py'' then Some data_lines else None)
       (\<lambda>p. if p = ''/proj'' then Some (Dir (''load.py'' # data_names) []) else None)"

text \<open>A TypeScript project, scanned from its root \<^verbatim>\<open>/proj\<close>, the working directory.\<close>

definition ts_project :: env where
  "ts_project =
     plain_fs ''/proj''
       [''/proj/c.ts'', ''/proj/d.ts'', ''/proj/a/b.ts'', ''/proj/a/d.ts'', ''/proj/a/b/c.ts'',
        ''/proj/a/b/e.js'', ''/proj/x/b.ts'', ''/proj/x/y.tsx'']
       [''/'', ''/proj'', ''/proj/a'', ''/proj/a/b'', ''/proj/x'']
       (\<lambda>p. None)
       (\<lambda>p. None)"

text \<open>A module of the infrastructure layer and its imports.\<close>

definition layered_modules :: modules where
  "layered_modules =
     [(''src/db/repo.ts'',
        \<lparr>path = ''src/db/repo.ts'',
         imports = [''src/components/View.tsx'', ''src/db/conn.ts'', ''src/util.ts''],
         exports = [], import_count = 3, imported_by_count = 0\<rparr>)]"


section \<open>Layer violations: the flagged edges\<close>

lemma set_violations_of:
  "set (violations_of p sl is) =
     {(p, i, violation_type sl tl) | i tl.
        i \<in> set is \<and> get_layer i = Some tl \<and> tl \<noteq> sl \<and> tl \<notin> set (allowed_get sl)}"
  by (induction "is") (auto split: option.splits)

lemma set_detect_layer_violations:
  "set (detect_layer_violations ms) =
     {(p, i, violation_type sl tl) | p i sl tl.
        (p, i) \<in> edges ms \<and> get_layer p = Some sl \<and> get_layer i = Some tl
        \<and> tl \<noteq> sl \<and> tl \<notin> set (allowed_get sl)}"
proof (induction ms)
  case Nil
  show ?case by (simp add: edges_def)
next
  case (Cons m ms)
  obtain p info where m: "m = (p, info)" by (cases m)
  have e: "edges ((p, info) # ms) = {(p, i) | i. i \<in> set (imports info)} \<union> edges ms"
    unfolding edges_def by auto
  show ?case
  proof (cases "get_layer p")
    case None
    then show ?thesis using Cons.IH unfolding m e by auto
  next
    case (Some sl)
    then show ?thesis using Cons.IH unfolding m e
      by (auto simp: set_violations_of)
  qed
qed

lemma get_layer_in_first:
  "get_layer_in tbl p = Some l \<longleftrightarrow>
     (\<exists>before pats after. tbl = before @ (l, pats) # after
        \<and> list_ex (\<lambda>pattern. re_search pattern p) pats
        \<and> (\<forall>(l', pats') \<in> set before. \<not> list_ex (\<lambda>pattern. re_search pattern p) pats'))"
proof (induction tbl)
  case Nil
  show ?case by simp
next
  case (Cons e tbl)
  obtain l0 pats0 where e: "e = (l0, pats0)" by (cases e)
  show ?case
  proof (cases "list_ex (\<lambda>pattern. re_search pattern p) pats0")
    case True
    have "(\<exists>before pats after. e # tbl = before @ (l, pats) # after
        \<and> list_ex (\<lambda>pattern. re_search pattern p) pats
        \<and> (\<forall>(l', pats') \<in> set before. \<not> list_ex (\<lambda>pattern. re_search pattern p) pats'))
      \<longleftrightarrow> l = l0"
    proof
      assume "\<exists>before pats after. e # tbl = before @ (l, pats) # after
        \<and> list_ex (\<lambda>pattern. re_search pattern p) pats
        \<and> (\<forall>(l', pats') \<in> set before. \<not> list_ex (\<lambda>pattern. re_search pattern p) pats')"
      then obtain before pats after where
        s: "e # tbl = before @ (l, pats) # after" and
        n: "\<forall>(l', pats') \<in> set before. \<not> list_ex (\<lambda>pattern. re_search pattern p) pats'"
        by blast
      show "l = l0"
      proof (cases before)
        case Nil
        with s e show ?thesis by simp
      next
        case (Cons b bs)
        with s e have "b = (l0, pats0)" by simp
        with n Cons True show ?thesis by auto
      qed
    next
      assume "l = l0"
      then have "e # tbl = [] @ (l, pats0) # tbl" using e by simp
      with True show "\<exists>before pats after. e # tbl = before @ (l, pats) # after
        \<and> list_ex (\<lambda>pattern. re_search pattern p) pats
        \<and> (\<forall>(l', pats') \<in> set before. \<not> list_ex (\<lambda>pattern. re_search pattern p) pats')"
        by (metis empty_iff empty_set)
    qed
    with True e show ?thesis by auto
  next
    case False
    have "(\<exists>before pats after. e # tbl = before @ (l, pats) # after
        \<and> list_ex (\<lambda>pattern. re_search pattern p) pats
        \<and> (\<forall>(l', pats') \<in> set before. \<not> list_ex (\<lambda>pattern. re_search pattern p) pats'))
      \<longleftrightarrow> (\<exists>before pats after. tbl = before @ (l, pats) # after
        \<and> list_ex (\<lambda>pattern. re_search pattern p) pats
        \<and> (\<forall>(l', pats') \<in> set before. \<not> list_ex (\<lambda>pattern. re_search pattern p) pats'))"
      (is "?L \<longleftrightarrow> ?R")
    proof
      assume ?L
      then obtain before pats after where
        s: "e # tbl = before @ (l, pats) # after" and
        h: "list_ex (\<lambda>pattern. re_search pattern p) pats" and
        n: "\<forall>(l', pats') \<in> set before. \<not> list_ex (\<lambda>pattern. re_search pattern p) pats'"
        by blast
      show ?R
      proof (cases before)
        case Nil
        with s e h False show ?thesis by simp
      next
        case (Cons b bs)
        with s have "tbl = bs @ (l, pats) # after" by simp
        moreover have "\<forall>(l', pats') \<in> set bs. \<not> list_ex (\<lambda>pattern. re_search pattern p) pats'"
          using n Cons by simp
        ultimately show ?thesis using h by blast
      qed
    next
      assume ?R
      then obtain before pats after where
        s: "tbl = before @ (l, pats) # after" and
        h: "list_ex (\<lambda>pattern. re_search pattern p) pats" and
        n: "\<forall>(l', pats') \<in> set before. \<not> list_ex (\<lambda>pattern. re_search pattern p) pats'"
        by blast
      have "e # tbl = (e # before) @ (l, pats) # after" using s by simp
      moreover have "\<forall>(l', pats') \<in> set (e # before).
          \<not> list_ex (\<lambda>pattern. re_search pattern p) pats'"
        using n False e by simp
      ultimately show ?L using h by blast
    qed
    with False e Cons.IH show ?thesis by simp
  qed
qed

lemma re_search_iff: "re_search pattern s \<longleftrightarrow> (\<exists>pre post. s = pre @ pattern @ post)"
proof (induction s)
  case Nil
  show ?case by auto
next
  case (Cons c cs)
  show ?case
  proof
    assume "re_search pattern (c # cs)"
    then consider "prefix pattern (c # cs)" | "re_search pattern cs" by auto
    then show "\<exists>pre post. c # cs = pre @ pattern @ post"
    proof cases
      case 1
      then obtain post where "c # cs = pattern @ post" by (auto simp: prefix_def)
      then have "c # cs = [] @ pattern @ post" by simp
      then show ?thesis by blast
    next
      case 2
      then obtain pre post where "cs = pre @ pattern @ post" using Cons.IH by blast
      then have "c # cs = (c # pre) @ pattern @ post" by simp
      then show ?thesis by blast
    qed
  next
    assume "\<exists>pre post. c # cs = pre @ pattern @ post"
    then obtain pre post where s: "c # cs = pre @ pattern @ post" by blast
    show "re_search pattern (c # cs)"
    proof (cases pre)
      case Nil
      with s have "prefix pattern (c # cs)" by (simp add: prefix_def)
      then show ?thesis by simp
    next
      case (Cons a pre')
      with s have "cs = pre' @ pattern @ post" by simp
      then show ?thesis using Cons.IH by auto
    qed
  qed
qed


text \<open>
  Claim C4. The list of layer violations holds the triple
  (source, target, "sourceLayer -> targetLayer") exactly for the edges of the graph
  whose source and target are both classified, the target layer being neither the source
  layer nor one of the layers permitted to the source layer; the layer of a path is the
  first layer of the table one of whose patterns occurs in the path. Hence an edge inside
  one layer and an edge with an unclassified end are never in the list.
\<close>

theorem layer_violations_exact:
  "set (detect_layer_violations ms) =
     {(p, i, sl @ arrow @ tl) | p i sl tl.
        (p, i) \<in> edges ms \<and> get_layer p = Some sl \<and> get_layer i = Some tl
        \<and> tl \<noteq> sl \<and> tl \<notin> set (allowed_get sl)}
   \<and> (get_layer q = Some l \<longleftrightarrow>
        (\<exists>before pats after. layer_patterns = before @ (l, pats) # after
           \<and> (\<exists>pattern \<in> set pats. \<exists>pre post. q = pre @ pattern @ post)
           \<and> (\<forall>(l', pats') \<in> set before.
                 \<not> (\<exists>pattern \<in> set pats'. \<exists>pre post. q = pre @ pattern @ post))))"
proof -
  have ex: "list_ex (\<lambda>pattern. re_search pattern q) pats
      \<longleftrightarrow> (\<exists>pattern \<in> set pats. \<exists>pre post. q = pre @ pattern @ post)" for pats
    by (simp add: list_ex_iff re_search_iff)
  show ?thesis
    using set_detect_layer_violations [of ms] get_layer_in_first [of layer_patterns q l]
    unfolding violation_type_def get_layer_def ex by simp
qed

theorem layer_violations_exact_witness:
  "(''src/db/repo.ts'', ''src/components/View.tsx'', ''infrastructure'' @ arrow @ ''presentation'')
     \<in> set (detect_layer_violations layered_modules)"
proof -
  have e: "(''src/db/repo.ts'', ''src/components/View.tsx'') \<in> edges layered_modules"
    by (simp add: edges_def layered_modules_def)
  have s: "get_layer ''src/db/repo.ts'' = Some ''infrastructure''"
    by (simp add: get_layer_def layer_patterns_def)
  have t: "get_layer ''src/components/View.tsx'' = Some ''presentation''"
    by (simp add: get_layer_def layer_patterns_def)
  have a: "''presentation'' \<notin> set (allowed_get ''infrastructure'')"
    by (simp add: allowed_get_def allowed_def)
  have "(''src/db/repo.ts'', ''src/components/View.tsx'',
      ''infrastructure'' @ arrow @ ''presentation'') \<in>
     {(p, i, sl @ arrow @ tl) | p i sl tl.
        (p, i) \<in> edges layered_modules \<and> get_layer p = Some sl \<and> get_layer i = Some tl
        \<and> tl \<noteq> sl \<and> tl \<notin> set (allowed_get sl)}"
    using e s t a by blast
  then show ?thesis
    using layer_violations_exact [of layered_modules, THEN conjunct1] by simp
qed


section \<open>Coupling analyzer: order of the result\<close>

lemma sorted_by_total_reverse_sorted:
  "sorted_wrt (\<lambda>x y. total x \<ge> total y) (sorted_by_total_reverse issues)"
proof -
  have "sorted (map (\<lambda>x. - int (total x)) (sorted_by_total_reverse issues))"
    unfolding sorted_by_total_reverse_def by (rule sorted_sort_key)
  then show ?thesis
    by (simp add: sorted_map sorted_wrt_iff_nth_less)
qed

lemma sorted_by_total_reverse_stable:
  "filter (\<lambda>x. total x = k) (sorted_by_total_reverse issues) = filter (\<lambda>x. total x = k) issues"
proof -
  have "filter (\<lambda>x. - int (total x) = - int k) (sort_key (\<lambda>x. - int (total x)) issues)
      = filter (\<lambda>x. - int (total x) = - int k) issues"
    by (rule sort_key_stable)
  then show ?thesis by (simp add: sorted_by_total_reverse_def)
qed

lemma coupling_issues_of_subseq:
  "subseq (map module (coupling_issues_of c ms)) (dict_keys ms)"
  by (induction ms) (auto simp: dict_keys_def Let_def)


text \<open>
  Claim C8 does not hold as stated: two modules of equal total come out in the order in
  which the module map holds them, whatever their paths are.
\<close>

theorem coupling_ties_counterexample:
  "map module (analyze_coupling [tied ''b.ts'', tied ''a.ts'']) = [''b.ts'', ''a.ts'']
   \<and> map total (analyze_coupling [tied ''b.ts'', tied ''a.ts'']) = [11, 11]
   \<and> map module (analyze_coupling [tied ''a.ts'', tied ''b.ts'']) = [''a.ts'', ''b.ts'']
   \<and> map total (analyze_coupling [tied ''a.ts'', tied ''b.ts'']) = [11, 11]"
  by (simp add: analyze_coupling_def sorted_by_total_reverse_def tied_def externals_def
        dict_has_def dict_keys_def TOTAL_COUPLING_THRESHOLD_def HIGH_COUPLING_THRESHOLD_def)

text \<open>
  Claim C8, amended. The list of coupling issues is sorted by total, largest first, and the
  issues of one total stand in the order of their modules in the module map.
\<close>

theorem coupling_sorted_stable:
  "sorted_wrt (\<lambda>x y. total x \<ge> total y) (analyze_coupling ms)
   \<and> subseq (map module (filter (\<lambda>x. total x = k) (analyze_coupling ms))) (dict_keys ms)"
proof -
  let ?issues = "coupling_issues_of (count_modules (dict_has ms) ms (\<lambda>_. 0)) ms"
  have "subseq (map module (filter (\<lambda>x. total x = k) ?issues)) (map module ?issues)"
    by (simp add: subseq_map)
  then have "subseq (map module (filter (\<lambda>x. total x = k) ?issues)) (dict_keys ms)"
    using coupling_issues_of_subseq subseq_order.order_trans by blast
  then show ?thesis
    unfolding analyze_coupling_def
    by (simp add: sorted_by_total_reverse_sorted sorted_by_total_reverse_stable)
qed


section \<open>Cycle detector: termination and invariants\<close>

lemma dfs_visited_mono_dom:
  "dfs_dfs_imports_dom (Inl (ms, node, pth, st)) \<Longrightarrow>
     dfs ms node pth st = Inr st' \<Longrightarrow> visited st \<subseteq> visited st'"
  "dfs_dfs_imports_dom (Inr (ms, is, pth, st)) \<Longrightarrow>
     dfs_imports ms is pth st = Inr st' \<Longrightarrow> visited st \<subseteq> visited st'"
proof (induction ms node pth st and ms "is" pth st arbitrary: st' and st'
    rule: dfs_dfs_imports.pinduct)
  case (1 ms node pth st)
  show ?case
  proof (cases "node \<in> rec_stack st")
    case True
    with 1(1,3) show ?thesis
      by (auto simp: dfs.psimps split: option.splits)
  next
    case nr: False
    show ?thesis
    proof (cases "node \<in> visited st")
      case True
      with nr 1(1,3) show ?thesis by (auto simp: dfs.psimps)
    next
      case nv: False
      let ?st1 = "st\<lparr>visited := insert node (visited st),
                      rec_stack := insert node (rec_stack st)\<rparr>"
      show ?thesis
      proof (cases "map_of ms node")
        case None
        with nr nv 1(1,3) show ?thesis
          by (auto simp: dfs.psimps Let_def split: if_splits)
      next
        case (Some info)
        from nr nv Some 1(1,3) obtain st2 where
          r: "dfs_imports ms (imports info) (pth @ [node]) ?st1 = Inr st2" and
          s: "st' = st2\<lparr>rec_stack := rec_stack st2 - {node}\<rparr>"
          by (auto simp: dfs.psimps Let_def split: if_splits sum.splits)
        from 1(2) [OF nr nv refl refl Some r] have "visited ?st1 \<subseteq> visited st2" .
        with s show ?thesis by auto
      qed
    qed
  qed
next
  case (2 ms pth st)
  then show ?case by (simp add: dfs_imports.psimps)
next
  case (3 ms imported rest pth st)
  show ?case
  proof (cases "dict_has ms imported")
    case True
    with 3(1,5) obtain st1 where
      a: "dfs ms imported pth st = Inr st1" and
      b: "dfs_imports ms rest pth st1 = Inr st'"
      by (auto simp: dfs_imports.psimps split: sum.splits)
    from 3(2) [OF True a] 3(3) [OF True a b] show ?thesis by blast
  next
    case False
    with 3(1,5) have "dfs_imports ms rest pth st = Inr st'"
      by (simp add: dfs_imports.psimps)
    from 3(4) [OF False this] show ?thesis .
  qed
qed

lemma map_of_dict_keys: "map_of d k = Some v \<Longrightarrow> k \<in> set (dict_keys d)"
  by (auto simp: dict_keys_def dest: map_of_SomeD intro: rev_image_eqI)

lemma card_unvisited_less:
  "node \<in> set (dict_keys ms) \<Longrightarrow> node \<notin> V \<Longrightarrow>
     card (set (dict_keys ms) - insert node V) < card (set (dict_keys ms) - V)"
  by (intro psubset_card_mono) auto

lemma card_unvisited_le:
  "V \<subseteq> V' \<Longrightarrow> card (set (dict_keys ms) - V') \<le> card (set (dict_keys ms) - V)"
  by (intro card_mono) auto

termination dfs
  apply (relation "inv_image (less_than <*lex*> less_than) dfs_measure")
  subgoal by (intro wf_inv_image wf_lex_prod wf_less_than)
  subgoal for ms node pth st st1 pth1 info
    using card_unvisited_less [of node ms "visited st"] map_of_dict_keys [of ms node info]
    by (simp add: dfs_measure_def)
  subgoal by (simp add: dfs_measure_def)
  subgoal for ms imported rest pth st st'
    using dfs_visited_mono_dom(1) [of ms imported pth st st']
    by (auto simp: dfs_measure_def dest: card_unvisited_le [of _ _ ms])
  subgoal by (simp add: dfs_measure_def)
  done

declare dfs.simps [simp del]

lemma index_of_mem: "x \<in> set xs \<Longrightarrow> \<exists>k. index_of xs x = Some k"
  by (induction xs) auto

lemma dfs_invariant:
  "distinct pth \<Longrightarrow> set pth = rec_stack st \<Longrightarrow> \<forall>c \<in> set (cycles st). distinct (cycle c) \<Longrightarrow>
     \<exists>st'. dfs ms node pth st = Inr st' \<and> rec_stack st' = rec_stack st
        \<and> (\<forall>c \<in> set (cycles st'). distinct (cycle c))"
  "distinct pth \<Longrightarrow> set pth = rec_stack st \<Longrightarrow> \<forall>c \<in> set (cycles st). distinct (cycle c) \<Longrightarrow>
     \<exists>st'. dfs_imports ms is pth st = Inr st' \<and> rec_stack st' = rec_stack st
        \<and> (\<forall>c \<in> set (cycles st'). distinct (cycle c))"
proof (induction ms node pth st and ms "is" pth st rule: dfs_dfs_imports.induct)
  case (1 ms node pth st)
  show ?case
  proof (cases "node \<in> rec_stack st")
    case True
    then obtain k where "index_of pth node = Some k"
      using index_of_mem [of node pth] "1.prems"(2) by auto
    with True "1.prems" show ?thesis
      by (simp add: dfs.simps)
  next
    case nr: False
    show ?thesis
    proof (cases "node \<in> visited st")
      case True
      with nr "1.prems" show ?thesis by (simp add: dfs.simps)
    next
      case nv: False
      let ?st1 = "st\<lparr>visited := insert node (visited st),
                      rec_stack := insert node (rec_stack st)\<rparr>"
      show ?thesis
      proof (cases "map_of ms node")
        case None
        with nr nv "1.prems" show ?thesis
          by (simp add: dfs.simps Let_def)
      next
        case (Some info)
        have d: "distinct (pth @ [node])" using nr "1.prems" by simp
        have r: "set (pth @ [node]) = rec_stack ?st1" using "1.prems" by simp
        have c: "\<forall>c \<in> set (cycles ?st1). distinct (cycle c)" using "1.prems" by simp
        from "1.IH" [OF nr nv refl refl Some d r c] obtain st2 where
          s: "dfs_imports ms (imports info) (pth @ [node]) ?st1 = Inr st2"
             "rec_stack st2 = rec_stack ?st1"
             "\<forall>c \<in> set (cycles st2). distinct (cycle c)"
          by blast
        with nr nv Some show ?thesis
          by (simp add: dfs.simps Let_def)
      qed
    qed
  qed
next
  case (2 ms pth st)
  then show ?case by simp
next
  case (3 ms imported rest pth st)
  show ?case
  proof (cases "dict_has ms imported")
    case True
    from "3.IH"(1) [OF True "3.prems"] obtain st1 where
      a: "dfs ms imported pth st = Inr st1" "rec_stack st1 = rec_stack st"
         "\<forall>c \<in> set (cycles st1). distinct (cycle c)"
      by blast
    from "3.IH"(2) [OF True a(1) "3.prems"(1)] a "3.prems"(2)
    obtain st2 where
      "dfs_imports ms rest pth st1 = Inr st2" "rec_stack st2 = rec_stack st1"
      "\<forall>c \<in> set (cycles st2). distinct (cycle c)"
      by auto
    with True a show ?thesis by simp
  next
    case False
    with "3.IH"(3) [OF False "3.prems"] show ?thesis by simp
  qed
qed

lemma dfs_roots_invariant:
  "rec_stack st = {} \<Longrightarrow> \<forall>c \<in> set (cycles st). distinct (cycle c) \<Longrightarrow>
     \<exists>st'. dfs_roots ms ks st = Inr st' \<and> (\<forall>c \<in> set (cycles st'). distinct (cycle c))"
proof (induction ks arbitrary: st)
  case Nil
  then show ?case by simp
next
  case (Cons k ks)
  show ?case
  proof (cases "k \<in> visited st")
    case True
    with Cons show ?thesis by simp
  next
    case False
    from dfs_invariant(1) [of "[]" st ms k] Cons.prems obtain st1 where
      a: "dfs ms k [] st = Inr st1" "rec_stack st1 = {}"
         "\<forall>c \<in> set (cycles st1). distinct (cycle c)"
      by auto
    from Cons.IH [OF a(2,3)] a(1) False show ?thesis by simp
  qed
qed

lemma emitted_cycles_distinct:
  "\<exists>cs. emitted_cycles ms = Inr cs \<and> (\<forall>c \<in> set cs. distinct (cycle c))"
  using dfs_roots_invariant [of dfs_init ms "dict_keys ms"]
  by (auto simp: emitted_cycles_def dfs_init_def)

lemma unique_cycles_insert:
  "unique_cycles cs (insert k seen) = unique_cycles (filter (\<lambda>c. sort (cycle c) \<noteq> k) cs) seen"
proof (induction cs arbitrary: seen)
  case Nil
  show ?case by simp
next
  case (Cons c cs)
  show ?case
  proof (cases "sort (cycle c) = k")
    case True
    then show ?thesis using Cons.IH by simp
  next
    case False
    then show ?thesis using Cons.IH [of "insert (sort (cycle c)) seen"] Cons.IH [of seen]
      by (auto simp: Let_def insert_commute)
  qed
qed

lemma sort_eq_iff_set_eq:
  "distinct xs \<Longrightarrow> distinct ys \<Longrightarrow> sort xs = sort ys \<longleftrightarrow> set xs = set ys"
  for xs ys :: "string list"
proof
  assume "sort xs = sort ys"
  then have "set (sort xs) = set (sort ys)" by simp
  then show "set xs = set ys" by simp
next
  assume d: "distinct xs" "distinct ys" and "set xs = set ys"
  then show "sort xs = sort ys"
    by (intro sorted_distinct_set_unique) simp_all
qed

lemma unique_cycles_first_of_each:
  "\<forall>c \<in> set cs. distinct (cycle c) \<Longrightarrow> unique_cycles cs {} = first_of_each_member_set cs"
proof (induction cs rule: first_of_each_member_set.induct)
  case 1
  show ?case by simp
next
  case (2 c rest)
  have f: "filter (\<lambda>d. sort (cycle d) \<noteq> sort (cycle c)) rest
      = filter (\<lambda>d. set (cycle d) \<noteq> set (cycle c)) rest"
    using "2.prems" by (intro filter_cong) (auto simp: sort_eq_iff_set_eq)
  have "unique_cycles (c # rest) {} = c # unique_cycles rest {sort (cycle c)}"
    by (simp add: Let_def)
  also have "\<dots> = c # unique_cycles (filter (\<lambda>d. set (cycle d) \<noteq> set (cycle c)) rest) {}"
    by (simp add: unique_cycles_insert f)
  also have "\<dots> = c # first_of_each_member_set (filter (\<lambda>d. set (cycle d) \<noteq> set (cycle c)) rest)"
    using "2.IH" "2.prems" by simp
  finally show ?case by simp
qed

lemma set_first_of_each: "c \<in> set (first_of_each_member_set cs) \<Longrightarrow> c \<in> set cs"
proof (induction cs arbitrary: c rule: first_of_each_member_set.induct)
  case 1
  then show ?case by simp
next
  case (2 c0 rest)
  show ?case
  proof (cases "c = c0")
    case True
    then show ?thesis by simp
  next
    case False
    with "2.prems" have
      "c \<in> set (first_of_each_member_set (filter (\<lambda>d. set (cycle d) \<noteq> set (cycle c0)) rest))"
      by simp
    from "2.IH" [OF this] have "c \<in> set rest" by simp
    then show ?thesis by simp
  qed
qed

lemma first_of_each_distinct:
  "distinct (map (\<lambda>c. set (cycle c)) (first_of_each_member_set cs))"
proof (induction cs rule: first_of_each_member_set.induct)
  case 1
  show ?case by simp
next
  case (2 c rest)
  let ?r = "filter (\<lambda>d. set (cycle d) \<noteq> set (cycle c)) rest"
  have "set (cycle c) \<noteq> set (cycle d)" if "d \<in> set (first_of_each_member_set ?r)" for d
  proof -
    from set_first_of_each [OF that] have "set (cycle d) \<noteq> set (cycle c)" by simp
    then show ?thesis by (rule not_sym)
  qed
  then have "set (cycle c) \<notin> (\<lambda>c. set (cycle c)) ` set (first_of_each_member_set ?r)"
    by (simp only: image_iff) blast
  with "2.IH" show ?case by simp
qed

lemma dict_keys_internal_only: "dict_keys (internal_only ms) = dict_keys ms"
  by (simp add: internal_only_def dict_keys_def case_prod_unfold comp_def)

lemma dict_has_internal_only: "dict_has (internal_only ms) = dict_has ms"
  by (simp add: dict_has_def dict_keys_internal_only fun_eq_iff)

lemma map_of_map_value:
  "map_of (map (\<lambda>(k, v). (k, f v)) d) k = map_option f (map_of d k)"
  by (induction d) auto

lemma map_of_internal_only:
  "map_of (internal_only ms) node =
     map_option (\<lambda>info. info\<lparr>imports := filter (dict_has ms) (imports info)\<rparr>) (map_of ms node)"
  unfolding internal_only_def by (rule map_of_map_value)

lemma dfs_internal_only:
  "dfs (internal_only ms) node pth st = dfs ms node pth st"
  "dfs_imports (internal_only ms) (filter (dict_has ms) is) pth st = dfs_imports ms is pth st"
proof (induction ms node pth st and ms "is" pth st rule: dfs_dfs_imports.induct)
  case (1 ms node pth st)
  show ?case
  proof (cases "node \<in> rec_stack st \<or> node \<in> visited st")
    case True
    then show ?thesis
      by (auto simp: dfs.simps [of ms node] dfs.simps [of "internal_only ms" node])
  next
    case False
    then have nr: "node \<notin> rec_stack st" and nv: "node \<notin> visited st" by auto
    show ?thesis
    proof (cases "map_of ms node")
      case None
      with nr nv show ?thesis
        by (simp add: dfs.simps [of ms node] dfs.simps [of "internal_only ms" node]
              map_of_internal_only)
    next
      case (Some info)
      from "1.IH" [OF nr nv refl refl Some] nr nv Some show ?thesis
        by (simp add: dfs.simps [of ms node] dfs.simps [of "internal_only ms" node]
              map_of_internal_only Let_def)
    qed
  qed
next
  case (2 ms pth st)
  show ?case by simp
next
  case (3 ms imported rest pth st)
  show ?case
  proof (cases "dict_has ms imported")
    case True
    show ?thesis
    proof (cases "dfs ms imported pth st")
      case (Inl e)
      with True "3.IH"(1) show ?thesis by (simp add: dict_has_internal_only)
    next
      case (Inr st1)
      with True "3.IH"(1) "3.IH"(2) [OF True Inr] show ?thesis
        by (simp add: dict_has_internal_only)
    qed
  next
    case False
    with "3.IH"(3) show ?thesis by simp
  qed
qed

lemma dfs_roots_internal_only: "dfs_roots (internal_only ms) ks st = dfs_roots ms ks st"
proof (induction ks arbitrary: st)
  case Nil
  show ?case by simp
next
  case (Cons k ks)
  show ?case
    by (cases "dfs ms k [] st") (simp_all add: dfs_internal_only(1) Cons.IH)
qed

lemma find_circular_dependencies_internal_only:
  "find_circular_dependencies (internal_only ms) = find_circular_dependencies ms"
  by (simp add: find_circular_dependencies_def emitted_cycles_def dfs_roots_internal_only
        dict_keys_internal_only)

text \<open>
  Claim C1 asks for every directed cycle over internal edges to be reported. In the graph
  a -> b, a -> c, b -> c, c -> a the walk a -> c -> a is a cycle over internal edges, and
  the detector reports the single cycle a, b, c: when the search comes back to a and looks
  at c, that module is already explored and is skipped.
\<close>

theorem cycle_through_explored_node_missed:
  "find_circular_dependencies shortcut_graph = Inr [\<lparr>cycle = [''a'', ''b'', ''c'']\<rparr>]
   \<and> (''a'', ''c'') \<in> edges shortcut_graph \<and> (''c'', ''a'') \<in> edges shortcut_graph
   \<and> dict_has shortcut_graph ''a'' \<and> dict_has shortcut_graph ''c''
   \<and> set [''a'', ''b'', ''c''] \<noteq> {''a'', ''c''}"
proof -
  have "(''b''::string) \<in> set [''a'', ''b'', ''c'']" and "(''b''::string) \<notin> {''a'', ''c''}"
    by simp_all
  then have "set [''a'', ''b'', ''c''] \<noteq> {''a'', ''c''}"
    by metis
  then show ?thesis
    by (simp add: find_circular_dependencies_def emitted_cycles_def shortcut_graph_def
          module_info_def dfs_init_def dict_keys_def dict_has_def dfs.simps edges_def Let_def)
qed

text \<open>
  Claim C3. The detector never fails, and what it returns is the list of emitted cycles
  with, for each set of member paths, only the first emitted cycle of that set kept; so
  no two returned cycles have the same set of member paths.
\<close>

theorem cycles_unique_by_member_set:
  "\<exists>cs. emitted_cycles ms = Inr cs
      \<and> find_circular_dependencies ms = Inr (first_of_each_member_set cs)
      \<and> distinct (map (\<lambda>c. set (cycle c)) (first_of_each_member_set cs))"
proof -
  from emitted_cycles_distinct [of ms] obtain cs where
    e: "emitted_cycles ms = Inr cs" and d: "\<forall>c \<in> set cs. distinct (cycle c)"
    by blast
  have "find_circular_dependencies ms = Inr (first_of_each_member_set cs)"
    using e unique_cycles_first_of_each [OF d] by (simp add: find_circular_dependencies_def)
  with e first_of_each_distinct [of cs] show ?thesis by blast
qed

theorem cycles_unique_by_member_set_witness:
  "emitted_cycles repeated_import = Inr [\<lparr>cycle = [''a'']\<rparr>, \<lparr>cycle = [''a'']\<rparr>]
   \<and> find_circular_dependencies repeated_import = Inr [\<lparr>cycle = [''a'']\<rparr>]"
proof -
  have e: "emitted_cycles repeated_import = Inr [\<lparr>cycle = [''a'']\<rparr>, \<lparr>cycle = [''a'']\<rparr>]"
    by (simp add: emitted_cycles_def repeated_import_def module_info_def dfs_init_def
          dict_keys_def dict_has_def dfs.simps Let_def)
  from cycles_unique_by_member_set [of repeated_import] e show ?thesis
    by auto
qed


section \<open>Import resolver\<close>

lemma try_extensions_cases:
  "(try_extensions e base_dir resolved exts = None
      \<and> (\<forall>ext \<in> set exts. \<not> isfile e (resolved @ ext)))
   \<or> (\<exists>ext \<in> set exts. isfile e (resolved @ ext)
        \<and> try_extensions e base_dir resolved exts
            = Some (normalize_path e (resolved @ ext) base_dir))"
  by (induction exts) (auto simp: Let_def)

text \<open>
  Claim C5 asks that each leading \<^verbatim>\<open>../\<close> move one directory up before the remainder is
  joined. The three examples of the claim hold. But the resolver counts every \<^verbatim>\<open>..\<close>
  segment of the raw path, leading or not, and joins the other segments: from
  \<^verbatim>\<open>a/b/c.ts\<close> the raw path \<^verbatim>\<open>../x/../b\<close>, which names \<^verbatim>\<open>a/b\<close>, is resolved to the
  file \<^verbatim>\<open>x/b.ts\<close>. And \<^verbatim>\<open>dirname\<close> does not leave the directory \<^verbatim>\<open>.\<close>: from \<^verbatim>\<open>./c.ts\<close>
  the raw path \<^verbatim>\<open>../d\<close> is resolved to the sibling \<^verbatim>\<open>d.ts\<close>.
\<close>

theorem relative_import_misresolved:
  "resolve_import ts_project ''../d'' ''a/b/c.ts'' ''/proj'' = Some ''a/d.ts''
   \<and> resolve_import ts_project ''./e'' ''a/b/c.ts'' ''/proj'' = Some ''a/b/e.js''
   \<and> resolve_import ts_project ''@/x/y'' ''a/b/c.ts'' ''/proj'' = Some ''x/y.tsx''
   \<and> resolved_path ts_project ''../x/../b'' ''a/b/c.ts'' ''/proj'' = Some ''x/b''
   \<and> resolve_import ts_project ''../x/../b'' ''a/b/c.ts'' ''/proj'' = Some ''x/b.ts''
   \<and> normpath (join (dirname (dirname ''a/b/c.ts'')) ''x/../b'') = ''a/b''
   \<and> isfile ts_project ''a/b.ts''
   \<and> resolved_path ts_project ''../d'' ''./c.ts'' ''/proj'' = Some ''d''
   \<and> resolve_import ts_project ''../d'' ''./c.ts'' ''/proj'' = Some ''d.ts''"
  by code_simp

text \<open>
  Claim C6. The resolver returns for every input: either \<^verbatim>\<open>None\<close>, and then no probed
  variant of the candidate path is a regular file, or the normalized path of a probed
  variant that is a regular file, where a \<^verbatim>\<open>ValueError\<close> of \<^verbatim>\<open>relpath\<close> is caught and
  the variant itself returned. A bare specifier for which neither the path under the
  project root nor that path with \<^verbatim>\<open>.ts\<close> exists resolves to \<^verbatim>\<open>None\<close>.
\<close>

theorem resolve_import_total:
  "((resolve_import e import_path current_file base_dir = None
       \<and> (\<forall>resolved. resolved_path e import_path current_file base_dir = Some resolved \<longrightarrow>
             (\<forall>ext \<in> set probe_extensions. \<not> isfile e (resolved @ ext))))
    \<or> (\<exists>resolved ext.
          resolved_path e import_path current_file base_dir = Some resolved
          \<and> ext \<in> set probe_extensions \<and> isfile e (resolved @ ext)
          \<and> resolve_import e import_path current_file base_dir
              = Some (case relpath e (resolved @ ext) base_dir of
                        Some r \<Rightarrow> r | None \<Rightarrow> resolved @ ext)))
   \<and> (\<not> prefix ''.'' import_path \<and> \<not> prefix ''@/'' import_path
        \<and> \<not> prefix ''~/'' import_path \<and> \<not> prefix ''/'' import_path
        \<and> \<not> exists e (join base_dir import_path)
        \<and> \<not> exists e (join base_dir import_path @ ''.ts'')
       \<longrightarrow> resolve_import e import_path current_file base_dir = None)"
proof
  show "(resolve_import e import_path current_file base_dir = None
       \<and> (\<forall>resolved. resolved_path e import_path current_file base_dir = Some resolved \<longrightarrow>
             (\<forall>ext \<in> set probe_extensions. \<not> isfile e (resolved @ ext))))
    \<or> (\<exists>resolved ext.
          resolved_path e import_path current_file base_dir = Some resolved
          \<and> ext \<in> set probe_extensions \<and> isfile e (resolved @ ext)
          \<and> resolve_import e import_path current_file base_dir
              = Some (case relpath e (resolved @ ext) base_dir of
                        Some r \<Rightarrow> r | None \<Rightarrow> resolved @ ext))"
  proof (cases "resolved_path e import_path current_file base_dir")
    case None
    then show ?thesis by (simp add: resolve_import_def)
  next
    case (Some resolved)
    from try_extensions_cases [of e base_dir resolved probe_extensions] Some
    show ?thesis
      unfolding resolve_import_def normalize_path_def by auto
  qed
next
  show "\<not> prefix ''.'' import_path \<and> \<not> prefix ''@/'' import_path
        \<and> \<not> prefix ''~/'' import_path \<and> \<not> prefix ''/'' import_path
        \<and> \<not> exists e (join base_dir import_path)
        \<and> \<not> exists e (join base_dir import_path @ ''.ts'')
       \<longrightarrow> resolve_import e import_path current_file base_dir = None"
    by (simp add: resolve_import_def resolved_path_def Let_def)
qed

theorem resolve_import_total_witness:
  "\<not> prefix ''.'' ''react'' \<and> \<not> prefix ''@/'' ''react''
   \<and> \<not> prefix ''~/'' ''react'' \<and> \<not> prefix ''/'' ''react''
   \<and> \<not> exists ts_project (join ''/proj'' ''react'')
   \<and> \<not> exists ts_project (join ''/proj'' ''react'' @ ''.ts'')
   \<and> resolve_import ts_project ''react'' ''a/b/c.ts'' ''/proj'' = None
   \<and> resolve_import ts_project ''./nothing'' ''a/b/c.ts'' ''/proj'' = None
   \<and> resolve_import ts_project ''./e'' ''a/b/c.ts'' ''/proj'' = Some ''a/b/e.js''"
proof -
  have h: "\<not> prefix ''.'' ''react'' \<and> \<not> prefix ''@/'' ''react''
   \<and> \<not> prefix ''~/'' ''react'' \<and> \<not> prefix ''/'' ''react''
   \<and> \<not> exists ts_project (join ''/proj'' ''react'')
   \<and> \<not> exists ts_project (join ''/proj'' ''react'' @ ''.ts'')"
    by code_simp
  have n: "resolve_import ts_project ''./nothing'' ''a/b/c.ts'' ''/proj'' = None"
    by code_simp
  have s: "resolve_import ts_project ''./e'' ''a/b/c.ts'' ''/proj'' = Some ''a/b/e.js''"
    by code_simp
  from resolve_import_total [of ts_project "''react''" "''a/b/c.ts''" "''/proj''"] h n s
  show ?thesis by blast
qed


section \<open>Python extractor: termination and the origin of each match\<close>

lemma match_from_shorter: "match_from s = Some (g, r) \<Longrightarrow> length r < length s"
proof -
  assume a: "match_from s = Some (g, r)"
  then have p: "prefix ''from'' s"
    by (auto simp: match_from_def split: if_splits)
  then have l: "4 \<le> length s" by (auto simp: prefix_def)
  from a p have "r = drop 6 (dropWhile is_space (dropWhile is_dotted (dropWhile is_space (drop 4 s))))"
    by (auto simp: match_from_def Let_def split: if_splits)
  then have "length r \<le> length (drop 4 s)"
    using length_dropWhile_le [of is_space "dropWhile is_dotted (dropWhile is_space (drop 4 s))"]
      length_dropWhile_le [of is_dotted "dropWhile is_space (drop 4 s)"]
      length_dropWhile_le [of is_space "drop 4 s"]
    by simp
  with l show ?thesis by simp
qed

lemma match_import_shorter: "match_import s = Some (g, r) \<Longrightarrow> length r < length s"
proof -
  assume a: "match_import s = Some (g, r)"
  then have p: "prefix ''import'' s"
    by (auto simp: match_import_def split: if_splits)
  then have l: "6 \<le> length s" by (auto simp: prefix_def)
  from a p have "r = dropWhile is_dotted (dropWhile is_space (drop 6 s))"
    by (auto simp: match_import_def Let_def split: if_splits)
  then have "length r \<le> length (drop 6 s)"
    using length_dropWhile_le [of is_dotted "dropWhile is_space (drop 6 s)"]
      length_dropWhile_le [of is_space "drop 6 s"]
    by simp
  with l show ?thesis by simp
qed

termination finditer_from
  by (relation "measure length") (auto dest: match_from_shorter)

termination finditer_import
  by (relation "measure (\<lambda>(b, s). length s)") (auto dest: match_import_shorter split: if_splits)

lemma resolve_all_sound:
  "r \<in> set (resolve_all e ps filepath base_dir) \<Longrightarrow>
     \<exists>p \<in> set ps. resolve_import e p filepath base_dir = Some r"
  by (induction ps) (auto split: option.splits if_splits)

lemma match_from_suffix: "match_from s = Some (g, r) \<Longrightarrow> suffix r s"
proof -
  assume a: "match_from s = Some (g, r)"
  then have "r = drop 6 (dropWhile is_space (dropWhile is_dotted (dropWhile is_space (drop 4 s))))"
    by (auto simp: match_from_def Let_def split: if_splits)
  then show ?thesis
    by (metis suffix_drop suffix_dropWhile suffix_order.trans)
qed

lemma match_import_suffix: "match_import s = Some (g, r) \<Longrightarrow> suffix r s"
proof -
  assume a: "match_import s = Some (g, r)"
  then have "r = dropWhile is_dotted (dropWhile is_space (drop 6 s))"
    by (auto simp: match_import_def Let_def split: if_splits)
  then show ?thesis
    by (metis suffix_drop suffix_dropWhile suffix_order.trans)
qed

lemma finditer_from_sound:
  "g \<in> set (finditer_from s) \<Longrightarrow>
     \<exists>pre post rest. s = pre @ post \<and> match_from post = Some (g, rest)"
proof (induction s rule: finditer_from.induct)
  case 1
  then show ?case by simp
next
  case (2 c cs)
  show ?case
  proof (cases "match_from (c # cs)")
    case None
    with "2.prems" have "g \<in> set (finditer_from cs)" by simp
    from "2.IH"(1) [OF None this] obtain pre post rest where
      "cs = pre @ post" "match_from post = Some (g, rest)" by blast
    then have "c # cs = (c # pre) @ post \<and> match_from post = Some (g, rest)" by simp
    then show ?thesis by blast
  next
    case (Some m)
    obtain g0 r0 where m: "m = (g0, r0)" by (cases m)
    from "2.prems" Some m consider "g = g0" | "g \<in> set (finditer_from r0)" by auto
    then show ?thesis
    proof cases
      case 1
      with Some m have "c # cs = [] @ (c # cs) \<and> match_from (c # cs) = Some (g, r0)" by simp
      then show ?thesis by blast
    next
      case 2
      from "2.IH"(2) [OF Some m [symmetric] 2] obtain pre post rest where
        p: "r0 = pre @ post" "match_from post = Some (g, rest)" by blast
      from Some m have "match_from (c # cs) = Some (g0, r0)" by simp
      from match_from_suffix [OF this] obtain pre0 where "c # cs = pre0 @ r0"
        unfolding suffix_def by blast
      with p have "c # cs = (pre0 @ pre) @ post \<and> match_from post = Some (g, rest)" by simp
      then show ?thesis by blast
    qed
  qed
qed

lemma finditer_import_sound:
  "g \<in> set (finditer_import b s) \<Longrightarrow>
     \<exists>pre post rest. s = pre @ post \<and> match_import post = Some (g, rest)
        \<and> (if pre = [] then b else last pre = CHR 0x0A)"
proof (induction b s rule: finditer_import.induct)
  case (1 b)
  then show ?case by simp
next
  case (2 b c cs)
  show ?case
  proof (cases "if b then match_import (c # cs) else None")
    case None
    with "2.prems" have "g \<in> set (finditer_import (c = CHR 0x0A) cs)" by simp
    from "2.IH"(1) [OF None this] obtain pre post rest where
      p: "cs = pre @ post" "match_import post = Some (g, rest)"
         "if pre = [] then c = CHR 0x0A else last pre = CHR 0x0A" by blast
    then have "c # cs = (c # pre) @ post \<and> match_import post = Some (g, rest)
        \<and> (if c # pre = [] then b else last (c # pre) = CHR 0x0A)"
      by (auto split: if_splits)
    then show ?thesis by blast
  next
    case (Some m)
    obtain g0 r0 where m: "m = (g0, r0)" by (cases m)
    from Some have b: b and mi: "match_import (c # cs) = Some (g0, r0)"
      unfolding m by (auto split: if_splits)
    from "2.prems" Some m consider "g = g0" | "g \<in> set (finditer_import False r0)" by auto
    then show ?thesis
    proof cases
      case 1
      with mi b have "c # cs = [] @ (c # cs) \<and> match_import (c # cs) = Some (g, r0)
          \<and> (if ([]::string) = [] then b else last [] = CHR 0x0A)" by simp
      then show ?thesis by blast
    next
      case 2
      from "2.IH"(2) [OF Some m [symmetric] 2] obtain pre post rest where
        p: "r0 = pre @ post" "match_import post = Some (g, rest)"
           "if pre = [] then False else last pre = CHR 0x0A" by blast
      then have ne: "pre \<noteq> []" and la: "last pre = CHR 0x0A" by (auto split: if_splits)
      from match_import_suffix [OF mi] obtain pre0 where "c # cs = pre0 @ r0"
        unfolding suffix_def by blast
      with p ne la have "c # cs = (pre0 @ pre) @ post \<and> match_import post = Some (g, rest)
          \<and> (if pre0 @ pre = [] then b else last (pre0 @ pre) = CHR 0x0A)" by simp
      then show ?thesis by blast
    qed
  qed
qed

text \<open>
  Claim C9 does not hold as stated: the pattern for \<^verbatim>\<open>from ... import\<close> is not anchored.
  A file whose only line is the comment \<^verbatim>\<open># from pkg import y\<close> yields the import
  \<^verbatim>\<open>pkg.py\<close>, from the occurrence after the comment sign; at the start of the line
  neither shape matches.
\<close>

theorem python_from_in_comment_counterexample:
  "extract_imports_python py_project ''# from pkg import y'' ''/proj/pkg.py'' ''/proj''
     = [''pkg.py'']
   \<and> match_from ''# from pkg import y'' = None
   \<and> match_import ''# from pkg import y'' = None
   \<and> match_from (drop 2 ''# from pkg import y'') = Some (''pkg'', '' y'')"
  by code_simp

text \<open>
  Claim C9, amended. Every import the Python extractor yields is the resolution of the
  dotted path (dots turned into slashes) of an occurrence of \<^verbatim>\<open>from <dotted.path> import\<close>
  anywhere in the content, or of an occurrence of \<^verbatim>\<open>import <dotted.path>\<close> that starts
  the content or follows a newline.
\<close>

theorem python_imports_from_occurrences:
  "\<forall>r \<in> set (extract_imports_python e content filepath base_dir).
     \<exists>pre post module_path rest.
        content = pre @ post
        \<and> resolve_import e (dots_to_slashes module_path) filepath base_dir = Some r
        \<and> (match_from post = Some (module_path, rest)
            \<or> (match_import post = Some (module_path, rest)
                \<and> (pre = [] \<or> last pre = CHR 0x0A)))"
proof
  fix r
  assume "r \<in> set (extract_imports_python e content filepath base_dir)"
  then consider
    "r \<in> set (resolve_all e (map dots_to_slashes (finditer_from content)) filepath base_dir)"
    | "r \<in> set (resolve_all e (map dots_to_slashes (finditer_import True content)) filepath base_dir)"
    by (auto simp: extract_imports_python_def)
  then show "\<exists>pre post module_path rest.
        content = pre @ post
        \<and> resolve_import e (dots_to_slashes module_path) filepath base_dir = Some r
        \<and> (match_from post = Some (module_path, rest)
            \<or> (match_import post = Some (module_path, rest)
                \<and> (pre = [] \<or> last pre = CHR 0x0A)))"
  proof cases
    case 1
    from resolve_all_sound [OF 1] obtain g where
      g: "g \<in> set (finditer_from content)" and
      r: "resolve_import e (dots_to_slashes g) filepath base_dir = Some r" by auto
    from finditer_from_sound [OF g] r show ?thesis by blast
  next
    case 2
    from resolve_all_sound [OF 2] obtain g where
      g: "g \<in> set (finditer_import True content)" and
      r: "resolve_import e (dots_to_slashes g) filepath base_dir = Some r" by auto
    from finditer_import_sound [OF g] obtain pre post rest where
      "content = pre @ post" "match_import post = Some (g, rest)"
      "pre = [] \<or> last pre = CHR 0x0A"
      by (metis (full_types))
    with r show ?thesis by blast
  qed
qed

theorem python_imports_from_occurrences_witness:
  "\<exists>pre post module_path rest.
      ''import pkg\<newline>x = 1; import os'' = pre @ post
      \<and> resolve_import py_project (dots_to_slashes module_path) ''/proj/m.py'' ''/proj''
          = Some ''pkg.py''
      \<and> (match_from post = Some (module_path, rest)
          \<or> (match_import post = Some (module_path, rest)
              \<and> (pre = [] \<or> last pre = CHR 0x0A)))"
proof -
  have "extract_imports_python py_project ''import pkg\<newline>x = 1; import os'' ''/proj/m.py'' ''/proj''
      = [''pkg.py'']"
    by code_simp
  then have "''pkg.py'' \<in> set (extract_imports_python py_project
      ''import pkg\<newline>x = 1; import os'' ''/proj/m.py'' ''/proj'')"
    by simp
  with python_imports_from_occurrences
    [of py_project "''import pkg\<newline>x = 1; import os''" "''/proj/m.py''" "''/proj''"]
  show ?thesis by blast
qed


section \<open>Graph builder: the counts\<close>

lemma count_imports_apply:
  "count_imports keep is c p = c p + (if keep p then count_list is p else 0)"
  by (induction "is" arbitrary: c) auto

lemma count_modules_apply:
  "count_modules keep ms c p =
     c p + (if keep p then sum_list (map (\<lambda>(q, n). count_list (imports n) p) ms) else 0)"
proof (induction ms arbitrary: c)
  case Nil
  show ?case by simp
next
  case (Cons m ms)
  obtain q n where m: "m = (q, n)" by (cases m)
  show ?case unfolding m by (simp add: Cons.IH count_imports_apply)
qed

lemma count_list_distinct: "distinct xs \<Longrightarrow> count_list xs p = (if p \<in> set xs then 1 else 0)"
  by (induction xs) auto

lemma count_importers:
  "\<forall>(q, n) \<in> set ms. distinct (imports n) \<Longrightarrow>
     sum_list (map (\<lambda>(q, n). count_list (imports n) p) ms)
       = length (filter (\<lambda>(q, n). p \<in> set (imports n)) ms)"
proof (induction ms)
  case Nil
  show ?case by simp
next
  case (Cons m ms)
  obtain q n where m: "m = (q, n)" by (cases m)
  from Cons.prems have d: "distinct (imports n)" and r: "\<forall>(q, n) \<in> set ms. distinct (imports n)"
    unfolding m by simp_all
  show ?case unfolding m using Cons.IH [OF r] by (simp add: count_list_distinct [OF d])
qed

lemma dict_keys_dict_set:
  "set (dict_keys (dict_set k v d)) = insert k (set (dict_keys d))"
proof (induction d)
  case Nil
  show ?case by (simp add: dict_keys_def)
next
  case (Cons a d)
  obtain k' v' where a: "a = (k', v')" by (cases a)
  show ?case
  proof (cases "k = k'")
    case True
    then show ?thesis unfolding a by (simp add: dict_keys_def)
  next
    case False
    then show ?thesis unfolding a using Cons.IH by (auto simp: dict_keys_def)
  qed
qed

lemma distinct_dict_set:
  "distinct (dict_keys d) \<Longrightarrow> distinct (dict_keys (dict_set k v d))"
proof (induction d)
  case Nil
  show ?case by (simp add: dict_keys_def)
next
  case (Cons a d)
  obtain k' v' where a: "a = (k', v')" by (cases a)
  from Cons.prems have n: "k' \<notin> set (dict_keys d)" and dd: "distinct (dict_keys d)"
    unfolding a by (simp_all add: dict_keys_def)
  show ?case
  proof (cases "k = k'")
    case True
    with Cons.prems show ?thesis unfolding a by (simp add: dict_keys_def)
  next
    case False
    have "k' \<notin> set (dict_keys (dict_set k v d))"
      using n False by (simp add: dict_keys_dict_set)
    with False Cons.IH [OF dd] show ?thesis unfolding a by (simp add: dict_keys_def)
  qed
qed

lemma set_dict_set: "set (dict_set k v d) \<subseteq> insert (k, v) (set d)"
proof (induction d)
  case Nil
  show ?case by simp
next
  case (Cons a d)
  obtain k' v' where a: "a = (k', v')" by (cases a)
  show ?case
  proof (cases "k = k'")
    case True
    then show ?thesis unfolding a by auto
  next
    case False
    then show ?thesis unfolding a using Cons.IH by auto
  qed
qed

lemma well_formed_dict_set:
  assumes "well_formed ms" and "distinct (imports info)"
    and "import_count info = length (imports info)"
  shows "well_formed (dict_set (path info) info ms)"
proof -
  have "\<forall>(p, i) \<in> insert (path info, info) (set ms).
      path i = p \<and> distinct (imports i) \<and> import_count i = length (imports i)"
    using assms by (simp add: well_formed_def)
  then have "\<forall>(p, i) \<in> set (dict_set (path info) info ms).
      path i = p \<and> distinct (imports i) \<and> import_count i = length (imports i)"
    using set_dict_set [of "path info" info ms] by blast
  then show ?thesis
    using assms(1) by (simp add: well_formed_def distinct_dict_set)
qed

lemma analyze_file_imports:
  assumes "lists_sets e" and "analyze_file e filepath base_dir = Some info"
  shows "distinct (imports info) \<and> import_count info = length (imports info)"
proof -
  from assms(2) obtain found where
    i: "imports info = list_of_set e found" and c: "import_count info = card (set found)"
    by (auto simp: analyze_file_def Let_def split: option.splits)
  from assms(1) have d: "distinct (list_of_set e found)" and s: "set (list_of_set e found) = set found"
    by (simp_all add: lists_sets_def)
  from distinct_card [OF d] s have "card (set found) = length (list_of_set e found)" by simp
  with i c d show ?thesis by simp
qed

lemma well_formed_scan_files:
  "lists_sets e \<Longrightarrow> well_formed ms \<Longrightarrow> well_formed (scan_files e base_dir root fs ms)"
proof (induction fs arbitrary: ms)
  case Nil
  then show ?case by simp
next
  case (Cons filename rest)
  show ?case
  proof (cases "list_ex (\<lambda>ext. suffix ext filename) extensions")
    case False
    then show ?thesis using Cons by simp
  next
    case True
    show ?thesis
    proof (cases "analyze_file e (join root filename) base_dir")
      case None
      with True show ?thesis using Cons by simp
    next
      case (Some info)
      from analyze_file_imports [OF Cons.prems(1) Some]
      have "well_formed (dict_set (path info) info ms)"
        using well_formed_dict_set [OF Cons.prems(2)] by blast
      from Cons.IH [OF Cons.prems(1) this] True Some show ?thesis by simp
    qed
  qed
qed

lemma well_formed_scan_walk:
  "lists_sets e \<Longrightarrow> well_formed ms \<Longrightarrow> well_formed (scan_walk e base_dir ds ms)"
proof (induction ds arbitrary: ms)
  case Nil
  then show ?case by simp
next
  case (Cons d ds)
  obtain root fs where d: "d = (root, fs)" by (cases d)
  show ?case unfolding d
    using Cons.IH [OF Cons.prems(1) well_formed_scan_files [OF Cons.prems]] by simp
qed

lemma update_imported_by_entries:
  "(p, info) \<in> set (update_imported_by ms) \<longleftrightarrow>
     (\<exists>info0. (p, info0) \<in> set ms
        \<and> info = info0\<lparr>imported_by_count := count_modules (\<lambda>imp. True) ms (\<lambda>p. 0) p\<rparr>)"
  by (auto simp: update_imported_by_def Let_def)

lemma dict_keys_update_imported_by: "dict_keys (update_imported_by ms) = dict_keys ms"
  by (simp add: update_imported_by_def dict_keys_def Let_def case_prod_unfold comp_def)

lemma filter_importers_update:
  "length (filter (\<lambda>(q, n). p \<in> set (imports n)) (update_imported_by ms))
     = length (filter (\<lambda>(q, n). p \<in> set (imports n)) ms)"
proof -
  have "length (filter (\<lambda>(q, n). p \<in> set (imports n))
          (map (\<lambda>(p, info). (p, info\<lparr>imported_by_count := g p\<rparr>)) xs))
      = length (filter (\<lambda>(q, n). p \<in> set (imports n)) xs)" for g and xs :: modules
    by (induction xs) auto
  then show ?thesis by (simp add: update_imported_by_def Let_def)
qed

lemma well_formed_update_imported_by:
  assumes "well_formed ms"
  shows "well_formed (update_imported_by ms)"
proof -
  have "path info = p \<and> distinct (imports info) \<and> import_count info = length (imports info)"
    if "(p, info) \<in> set (update_imported_by ms)" for p info
  proof -
    from that obtain info0 where
      m: "(p, info0) \<in> set ms" and
      i: "info = info0\<lparr>imported_by_count := count_modules (\<lambda>imp. True) ms (\<lambda>p. 0) p\<rparr>"
      unfolding update_imported_by_entries by blast
    from assms m have
      "path info0 = p \<and> distinct (imports info0) \<and> import_count info0 = length (imports info0)"
      unfolding well_formed_def by blast
    then show ?thesis unfolding i by simp
  qed
  then show ?thesis
    using assms unfolding well_formed_def dict_keys_update_imported_by by blast
qed

lemma well_formed_build_modules:
  "lists_sets e \<Longrightarrow> well_formed (build_modules e dirpath)"
proof -
  assume l: "lists_sets e"
  have w: "well_formed []" by (simp add: well_formed_def dict_keys_def)
  show ?thesis
    unfolding build_modules_def Let_def
    by (rule well_formed_update_imported_by) (rule well_formed_scan_walk [OF l w])
qed

lemma build_modules_imported_by:
  assumes "lists_sets e" and "(p, info) \<in> set (build_modules e dirpath)"
  shows "imported_by_count info
    = length (filter (\<lambda>(q, n). p \<in> set (imports n)) (build_modules e dirpath))"
proof -
  define ms0 where
    "ms0 = scan_walk e (abspath e dirpath)
       (case tree_at e dirpath of None \<Rightarrow> [] | Some t \<Rightarrow> walk dirpath t) []"
  have b: "build_modules e dirpath = update_imported_by ms0"
    by (simp add: build_modules_def ms0_def)
  have w0: "well_formed ms0"
    unfolding ms0_def
    by (rule well_formed_scan_walk [OF assms(1)]) (simp add: well_formed_def dict_keys_def)
  then have d0: "\<forall>(q, n) \<in> set ms0. distinct (imports n)"
    by (auto simp: well_formed_def)
  from assms(2) have "imported_by_count info = count_modules (\<lambda>imp. True) ms0 (\<lambda>p. 0) p"
    unfolding b by (auto simp: update_imported_by_entries)
  also have "\<dots> = length (filter (\<lambda>(q, n). p \<in> set (imports n)) ms0)"
    by (simp add: count_modules_apply count_importers [OF d0])
  also have "\<dots> = length (filter (\<lambda>(q, n). p \<in> set (imports n)) (update_imported_by ms0))"
    by (simp add: filter_importers_update)
  finally show ?thesis unfolding b .
qed

lemma coupling_count_on_keys:
  assumes "well_formed ms" and "dict_has ms p"
  shows "count_modules (dict_has ms) ms (\<lambda>p. 0) p
    = length (filter (\<lambda>(q, n). p \<in> set (imports n)) ms)"
proof -
  from assms(1) have "\<forall>(q, n) \<in> set ms. distinct (imports n)"
    by (auto simp: well_formed_def)
  from count_importers [OF this] assms(2) show ?thesis
    by (simp add: count_modules_apply)
qed

lemma set_coupling_issues_of:
  "set (coupling_issues_of c ms) =
     {\<lparr>module = p, incoming = c p, outgoing = import_count info,
        total = c p + import_count info\<rparr> | p info.
        (p, info) \<in> set ms
        \<and> (c p + import_count info > TOTAL_COUPLING_THRESHOLD
            \<or> (c p > HIGH_COUPLING_THRESHOLD \<and> import_count info > HIGH_COUPLING_THRESHOLD))}"
proof (induction ms)
  case Nil
  show ?case by simp
next
  case (Cons m ms)
  obtain p info where m: "m = (p, info)" by (cases m)
  show ?case unfolding m using Cons.IH by (auto simp: Let_def)
qed

lemma set_analyze_coupling:
  "set (analyze_coupling ms) =
     set (coupling_issues_of (count_modules (dict_has ms) ms (\<lambda>p. 0)) ms)"
  by (simp add: analyze_coupling_def sorted_by_total_reverse_def)

lemma well_formed_unique:
  "well_formed ms \<Longrightarrow> (p, a) \<in> set ms \<Longrightarrow> (p, b) \<in> set ms \<Longrightarrow> a = b"
  unfolding well_formed_def dict_keys_def
  by (metis eq_key_imp_eq_value)

lemma in_dict_has: "(p, info) \<in> set ms \<Longrightarrow> dict_has ms p"
  by (auto simp: dict_has_def dict_keys_def intro: rev_image_eqI)

lemma find_circular_dependencies_returns: "\<exists>cs. find_circular_dependencies ms = Inr cs"
  using emitted_cycles_distinct [of ms] by (auto simp: find_circular_dependencies_def)

lemma lists_sets_remdups: "list_of_set e = remdups \<Longrightarrow> lists_sets e"
  by (simp add: lists_sets_def)

text \<open>
  Claim C2. \<^verbatim>\<open>analyze_directory\<close> returns a report whose module map is the built map;
  the keys of the map are pairwise distinct, each entry is stored under its own path, and
  its \<^verbatim>\<open>imported_by_count\<close> is the number of entries of the map, itself included, whose
  import list holds that path.
\<close>

theorem imported_by_count_invariant:
  assumes "lists_sets e"
  shows "(\<exists>report. analyze_directory e dirpath = Inr report
            \<and> modules report = build_modules e dirpath)
    \<and> distinct (dict_keys (build_modules e dirpath))
    \<and> (\<forall>(p, info) \<in> set (build_modules e dirpath).
          path info = p
          \<and> imported_by_count info
              = length (filter (\<lambda>(q, n). path info \<in> set (imports n))
                  (build_modules e dirpath)))"
proof -
  let ?ms = "build_modules e dirpath"
  from find_circular_dependencies_returns [of ?ms] have
    r: "\<exists>report. analyze_directory e dirpath = Inr report \<and> modules report = ?ms"
    by (auto simp: analyze_directory_def Let_def)
  have w: "well_formed ?ms" by (rule well_formed_build_modules [OF assms])
  then have d: "distinct (dict_keys ?ms)" by (simp add: well_formed_def)
  have "path info = p \<and> imported_by_count info
      = length (filter (\<lambda>(q, n). path info \<in> set (imports n)) ?ms)"
    if "(p, info) \<in> set ?ms" for p info
  proof -
    from w that have "path info = p" unfolding well_formed_def by blast
    with build_modules_imported_by [OF assms that] show ?thesis by simp
  qed
  with r d show ?thesis by blast
qed

theorem imported_by_count_invariant_witness:
  "lists_sets py_project
   \<and> (\<exists>info. (''pkg.py'', info) \<in> set (build_modules py_project ''/proj'')
          \<and> path info = ''pkg.py''
          \<and> imports info = [''pkg.py'']
          \<and> imported_by_count info = 1
          \<and> imported_by_count info
              = length (filter (\<lambda>(q, n). path info \<in> set (imports n))
                  (build_modules py_project ''/proj'')))"
proof -
  have l: "lists_sets py_project"
    by (rule lists_sets_remdups) (simp add: py_project_def plain_fs_def)
  have b: "build_modules py_project ''/proj'' =
     [(''m.py'', \<lparr>path = ''m.py'', imports = [''data''], exports = [],
                  import_count = 1, imported_by_count = 0\<rparr>),
      (''pkg.py'', \<lparr>path = ''pkg.py'', imports = [''pkg.py''], exports = [],
                    import_count = 1, imported_by_count = 1\<rparr>)]"
    by code_simp
  define info where
    "info = \<lparr>path = ''pkg.py'', imports = [''pkg.py''], exports = [],
                    import_count = 1, imported_by_count = (1::nat)\<rparr>"
  have m: "(''pkg.py'', info) \<in> set (build_modules py_project ''/proj'')"
    unfolding b info_def by simp
  have f: "path info = ''pkg.py'' \<and> imports info = [''pkg.py''] \<and> imported_by_count info = 1"
    unfolding info_def by simp
  from imported_by_count_invariant [OF l, of "''/proj''"] m
  have "imported_by_count info
      = length (filter (\<lambda>(q, n). path info \<in> set (imports n))
          (build_modules py_project ''/proj''))"
    by blast
  with l m f show ?thesis by blast
qed

text \<open>
  Claim C7. On the built map, a module has a coupling issue exactly if, with incoming its
  \<^verbatim>\<open>imported_by_count\<close> and outgoing its \<^verbatim>\<open>import_count\<close>, the sum exceeds 10 or both
  exceed 5; every issue carries these counts and their sum, and is a hub exactly if both
  counts exceed 5; so every module with both counts above 5 has an issue that is a hub.
  The example project has an issue that is no hub.
\<close>

theorem coupling_flagging:
  assumes "lists_sets e" and "ms = build_modules e dirpath"
  shows "(\<forall>(p, info) \<in> set ms.
            (\<exists>x \<in> set (analyze_coupling ms). module x = p) \<longleftrightarrow>
              (imported_by_count info + import_count info > 10
               \<or> (imported_by_count info > 5 \<and> import_count info > 5)))
    \<and> (\<forall>x \<in> set (analyze_coupling ms). \<exists>info. (module x, info) \<in> set ms
            \<and> incoming x = imported_by_count info \<and> outgoing x = import_count info
            \<and> total x = incoming x + outgoing x
            \<and> (is_hub x \<longleftrightarrow> incoming x > 5 \<and> outgoing x > 5))
    \<and> (\<forall>(p, info) \<in> set ms. imported_by_count info > 5 \<and> import_count info > 5 \<longrightarrow>
            (\<exists>x \<in> set (analyze_coupling ms). module x = p \<and> is_hub x))"
proof -
  let ?c = "count_modules (dict_has ms) ms (\<lambda>p. 0)"
  have w: "well_formed ms" unfolding assms(2) by (rule well_formed_build_modules [OF assms(1)])
  have c: "?c p = imported_by_count info" if "(p, info) \<in> set ms" for p info
    using coupling_count_on_keys [OF w in_dict_has [OF that]]
      build_modules_imported_by [OF assms(1), of p info dirpath] that
    unfolding assms(2) by simp
  have s: "set (analyze_coupling ms) =
     {\<lparr>module = p, incoming = ?c p, outgoing = import_count info,
        total = ?c p + import_count info\<rparr> | p info.
        (p, info) \<in> set ms
        \<and> (?c p + import_count info > 10 \<or> (?c p > 5 \<and> import_count info > 5))}"
    unfolding set_analyze_coupling set_coupling_issues_of
      TOTAL_COUPLING_THRESHOLD_def HIGH_COUPLING_THRESHOLD_def ..
  have a: "(\<exists>x \<in> set (analyze_coupling ms). module x = p) \<longleftrightarrow>
      (imported_by_count info + import_count info > 10
       \<or> (imported_by_count info > 5 \<and> import_count info > 5))"
    if m: "(p, info) \<in> set ms" for p info
  proof
    assume "\<exists>x \<in> set (analyze_coupling ms). module x = p"
    then obtain info' where m': "(p, info') \<in> set ms" and
      f: "?c p + import_count info' > 10 \<or> (?c p > 5 \<and> import_count info' > 5)"
      unfolding s by auto
    from well_formed_unique [OF w m m'] have "info' = info" by simp
    with f c [OF m] show "imported_by_count info + import_count info > 10
       \<or> (imported_by_count info > 5 \<and> import_count info > 5)" by simp
  next
    assume "imported_by_count info + import_count info > 10
       \<or> (imported_by_count info > 5 \<and> import_count info > 5)"
    with c [OF m] have "?c p + import_count info > 10 \<or> (?c p > 5 \<and> import_count info > 5)"
      by simp
    with m have "\<lparr>module = p, incoming = ?c p, outgoing = import_count info,
        total = ?c p + import_count info\<rparr> \<in> set (analyze_coupling ms)"
      unfolding s by blast
    then show "\<exists>x \<in> set (analyze_coupling ms). module x = p"
      by (rule rev_bexI) simp
  qed
  have b: "\<exists>info. (module x, info) \<in> set ms
            \<and> incoming x = imported_by_count info \<and> outgoing x = import_count info
            \<and> total x = incoming x + outgoing x
            \<and> (is_hub x \<longleftrightarrow> incoming x > 5 \<and> outgoing x > 5)"
    if "x \<in> set (analyze_coupling ms)" for x
  proof -
    from that obtain p info where m: "(p, info) \<in> set ms" and
      x: "x = \<lparr>module = p, incoming = ?c p, outgoing = import_count info,
        total = ?c p + import_count info\<rparr>"
      unfolding s by blast
    from m c [OF m] show ?thesis
      unfolding x by (auto simp: is_hub_def HIGH_COUPLING_THRESHOLD_def)
  qed
  have h: "\<exists>x \<in> set (analyze_coupling ms). module x = p \<and> is_hub x"
    if m: "(p, info) \<in> set ms" and g: "imported_by_count info > 5 \<and> import_count info > 5"
    for p info
  proof -
    from g c [OF m] have "?c p + import_count info > 10 \<or> (?c p > 5 \<and> import_count info > 5)"
      by simp
    with m have i: "\<lparr>module = p, incoming = ?c p, outgoing = import_count info,
        total = ?c p + import_count info\<rparr> \<in> set (analyze_coupling ms)"
      unfolding s by blast
    show ?thesis
      using g c [OF m] by (intro rev_bexI [OF i]) (simp add: is_hub_def HIGH_COUPLING_THRESHOLD_def)
  qed
  from a b h show ?thesis by blast
qed

theorem coupling_flagging_witness:
  "lists_sets loader_project
   \<and> analyze_coupling (build_modules loader_project ''/proj'')
       = [\<lparr>module = ''load.py'', incoming = 0, outgoing = 11, total = 11\<rparr>]
   \<and> \<not> is_hub \<lparr>module = ''load.py'', incoming = 0, outgoing = 11, total = 11\<rparr>
   \<and> (\<exists>info. (''load.py'', info) \<in> set (build_modules loader_project ''/proj'')
          \<and> imported_by_count info = 0 \<and> import_count info = 11)"
proof -
  have l: "lists_sets loader_project"
    by (rule lists_sets_remdups) (simp add: loader_project_def plain_fs_def)
  have a: "analyze_coupling (build_modules loader_project ''/proj'')
       = [\<lparr>module = ''load.py'', incoming = 0, outgoing = 11, total = 11\<rparr>]"
    by code_simp
  have h: "\<not> is_hub \<lparr>module = ''load.py'', incoming = 0, outgoing = 11, total = 11\<rparr>"
    by (simp add: is_hub_def HIGH_COUPLING_THRESHOLD_def)
  have "\<lparr>module = ''load.py'', incoming = 0, outgoing = 11, total = 11\<rparr>
      \<in> set (analyze_coupling (build_modules loader_project ''/proj''))"
    unfolding a by simp
  with coupling_flagging [OF l refl, of "''/proj''"]
  have "\<exists>info. (module \<lparr>module = ''load.py'', incoming = 0, outgoing = 11, total = 11\<rparr>, info)
          \<in> set (build_modules loader_project ''/proj'')
      \<and> incoming \<lparr>module = ''load.py'', incoming = 0, outgoing = 11, total = 11\<rparr>
          = imported_by_count info
      \<and> outgoing \<lparr>module = ''load.py'', incoming = 0, outgoing = 11, total = 11\<rparr>
          = import_count info"
    by blast
  then have "\<exists>info. (''load.py'', info) \<in> set (build_modules loader_project ''/proj'')
          \<and> imported_by_count info = 0 \<and> import_count info = 11"
    by auto
  with l a h show ?thesis by blast
qed

lemma built_incoming:
  assumes "lists_sets e" and "(p, info) \<in> set (build_modules e dirpath)"
  shows "count_modules (dict_has (build_modules e dirpath)) (build_modules e dirpath) (\<lambda>p. 0) p
    = imported_by_count info"
  using coupling_count_on_keys [OF well_formed_build_modules [OF assms(1)] in_dict_has [OF assms(2)]]
    build_modules_imported_by [OF assms]
  by simp

text \<open>
  Claim C10. A module's import list can hold a path that is no key of the module map: in
  the first example project the module \<^verbatim>\<open>m.py\<close> imports the file \<^verbatim>\<open>data\<close>, which has no
  scanned extension. Such entries count: in the second example project none of the eleven
  imports of \<^verbatim>\<open>load.py\<close> is a key of the map, and the coupling analyzer reports the module
  with an outgoing count of 11. In every built map, \<^verbatim>\<open>import_count\<close> is the number of the
  entries of the import list that are keys plus the number of those that are not; a module
  has a coupling issue, with that sum as its outgoing count, exactly if the thresholds are
  exceeded with that sum as outgoing count; and every reported issue carries that sum.
  The cycle detector returns what it returns on the map whose import lists are restricted
  to the keys of the map.
\<close>

theorem external_imports_counted_not_followed:
  assumes "lists_sets e" and "ms = build_modules e dirpath"
  shows "(\<exists>info. (''m.py'', info) \<in> set (build_modules py_project ''/proj'')
            \<and> ''data'' \<in> set (imports info)
            \<and> \<not> dict_has (build_modules py_project ''/proj'') ''data''
            \<and> import_count info = 1)
    \<and> (analyze_coupling (build_modules loader_project ''/proj'')
          = [\<lparr>module = ''load.py'', incoming = 0, outgoing = 11, total = 11\<rparr>]
        \<and> (\<exists>info. (''load.py'', info) \<in> set (build_modules loader_project ''/proj'')
              \<and> length (imports info) = 11
              \<and> filter (dict_has (build_modules loader_project ''/proj'')) (imports info) = []))
    \<and> (\<forall>(p, info) \<in> set ms.
          import_count info
            = length (filter (dict_has ms) (imports info))
              + length (filter (\<lambda>i. \<not> dict_has ms i) (imports info)))
    \<and> (\<forall>(p, info) \<in> set ms.
          (\<exists>x \<in> set (analyze_coupling ms). module x = p
              \<and> outgoing x = length (filter (dict_has ms) (imports info))
                              + length (filter (\<lambda>i. \<not> dict_has ms i) (imports info)))
          \<longleftrightarrow>
            (imported_by_count info
               + (length (filter (dict_has ms) (imports info))
                  + length (filter (\<lambda>i. \<not> dict_has ms i) (imports info))) > 10
             \<or> (imported_by_count info > 5
                 \<and> length (filter (dict_has ms) (imports info))
                    + length (filter (\<lambda>i. \<not> dict_has ms i) (imports info)) > 5)))
    \<and> (\<forall>x \<in> set (analyze_coupling ms).
          \<exists>info. (module x, info) \<in> set ms
            \<and> outgoing x = length (filter (dict_has ms) (imports info))
                            + length (filter (\<lambda>i. \<not> dict_has ms i) (imports info)))
    \<and> find_circular_dependencies ms = find_circular_dependencies (internal_only ms)"
proof -
  let ?c = "count_modules (dict_has ms) ms (\<lambda>p. 0)"
  let ?n = "\<lambda>info. length (filter (dict_has ms) (imports info))
              + length (filter (\<lambda>i. \<not> dict_has ms i) (imports info))"
  have b: "build_modules py_project ''/proj'' =
     [(''m.py'', \<lparr>path = ''m.py'', imports = [''data''], exports = [],
                  import_count = 1, imported_by_count = 0\<rparr>),
      (''pkg.py'', \<lparr>path = ''pkg.py'', imports = [''pkg.py''], exports = [],
                    import_count = 1, imported_by_count = 1\<rparr>)]"
    by code_simp
  have x: "\<exists>info. (''m.py'', info) \<in> set (build_modules py_project ''/proj'')
            \<and> ''data'' \<in> set (imports info)
            \<and> \<not> dict_has (build_modules py_project ''/proj'') ''data''
            \<and> import_count info = 1"
    unfolding b by (simp add: dict_has_def dict_keys_def)
  have lb: "build_modules loader_project ''/proj'' =
     [(''load.py'', \<lparr>path = ''load.py'', imports = data_names, exports = [],
                     import_count = 11, imported_by_count = 0\<rparr>)]"
    by code_simp
  have la: "analyze_coupling (build_modules loader_project ''/proj'')
          = [\<lparr>module = ''load.py'', incoming = 0, outgoing = 11, total = 11\<rparr>]"
    by code_simp
  have li: "\<exists>info. (''load.py'', info) \<in> set (build_modules loader_project ''/proj'')
              \<and> length (imports info) = 11
              \<and> filter (dict_has (build_modules loader_project ''/proj'')) (imports info) = []"
    unfolding lb by (simp add: dict_has_def dict_keys_def data_names_def)
  have w: "well_formed ms" unfolding assms(2) by (rule well_formed_build_modules [OF assms(1)])
  have n: "import_count info = ?n info" if "(p, info) \<in> set ms" for p info
  proof -
    from w that have "import_count info = length (imports info)"
      unfolding well_formed_def by blast
    then show ?thesis by (simp add: sum_length_filter_compl)
  qed
  have c: "?c p = imported_by_count info" if "(p, info) \<in> set ms" for p info
    using built_incoming [OF assms(1), of p info dirpath] that unfolding assms(2) by simp
  have s: "set (analyze_coupling ms) =
     {\<lparr>module = p, incoming = ?c p, outgoing = import_count info,
        total = ?c p + import_count info\<rparr> | p info.
        (p, info) \<in> set ms
        \<and> (?c p + import_count info > 10 \<or> (?c p > 5 \<and> import_count info > 5))}"
    unfolding set_analyze_coupling set_coupling_issues_of
      TOTAL_COUPLING_THRESHOLD_def HIGH_COUPLING_THRESHOLD_def ..
  have a: "(\<exists>x \<in> set (analyze_coupling ms). module x = p \<and> outgoing x = ?n info) \<longleftrightarrow>
      (imported_by_count info + ?n info > 10 \<or> (imported_by_count info > 5 \<and> ?n info > 5))"
    if m: "(p, info) \<in> set ms" for p info
  proof
    assume "\<exists>x \<in> set (analyze_coupling ms). module x = p \<and> outgoing x = ?n info"
    then obtain info' where m': "(p, info') \<in> set ms" and
      f: "?c p + import_count info' > 10 \<or> (?c p > 5 \<and> import_count info' > 5)"
      unfolding s by auto
    from well_formed_unique [OF w m m'] have "info' = info" by simp
    with f c [OF m] n [OF m]
    show "imported_by_count info + ?n info > 10 \<or> (imported_by_count info > 5 \<and> ?n info > 5)"
      by simp
  next
    assume "imported_by_count info + ?n info > 10 \<or> (imported_by_count info > 5 \<and> ?n info > 5)"
    with c [OF m] n [OF m]
    have "?c p + import_count info > 10 \<or> (?c p > 5 \<and> import_count info > 5)"
      by simp
    with m have i: "\<lparr>module = p, incoming = ?c p, outgoing = import_count info,
        total = ?c p + import_count info\<rparr> \<in> set (analyze_coupling ms)"
      unfolding s by blast
    show "\<exists>x \<in> set (analyze_coupling ms). module x = p \<and> outgoing x = ?n info"
      by (rule rev_bexI [OF i]) (simp add: n [OF m])
  qed
  have o: "\<exists>info. (module x, info) \<in> set ms \<and> outgoing x = ?n info"
    if "x \<in> set (analyze_coupling ms)" for x
  proof -
    from that obtain p info where m: "(p, info) \<in> set ms" and
      x: "x = \<lparr>module = p, incoming = ?c p, outgoing = import_count info,
        total = ?c p + import_count info\<rparr>"
      unfolding s by blast
    from m n [OF m] show ?thesis unfolding x by auto
  qed
  have n': "\<forall>(p, info) \<in> set ms. import_count info = ?n info"
    using n by blast
  have a': "\<forall>(p, info) \<in> set ms.
      (\<exists>x \<in> set (analyze_coupling ms). module x = p \<and> outgoing x = ?n info) \<longleftrightarrow>
      (imported_by_count info + ?n info > 10 \<or> (imported_by_count info > 5 \<and> ?n info > 5))"
    using a by blast
  have o': "\<forall>x \<in> set (analyze_coupling ms).
      \<exists>info. (module x, info) \<in> set ms \<and> outgoing x = ?n info"
    using o by blast
  have f: "find_circular_dependencies ms = find_circular_dependencies (internal_only ms)"
    by (rule find_circular_dependencies_internal_only [symmetric])
  show ?thesis
    using x la li n' a' o' f by (intro conjI)
qed

theorem external_imports_counted_not_followed_witness:
  "lists_sets loader_project
   \<and> (\<exists>x info. x \<in> set (analyze_coupling (build_modules loader_project ''/proj''))
          \<and> (''load.py'', info) \<in> set (build_modules loader_project ''/proj'')
          \<and> module x = ''load.py''
          \<and> filter (dict_has (build_modules loader_project ''/proj'')) (imports info) = []
          \<and> length (filter (\<lambda>i. \<not> dict_has (build_modules loader_project ''/proj'') i)
               (imports info)) = 11
          \<and> outgoing x
              = length (filter (dict_has (build_modules loader_project ''/proj'')) (imports info))
                + length (filter (\<lambda>i. \<not> dict_has (build_modules loader_project ''/proj'') i)
                    (imports info))
          \<and> outgoing x = 11)
   \<and> find_circular_dependencies (build_modules loader_project ''/proj'')
       = find_circular_dependencies (internal_only (build_modules loader_project ''/proj''))"
proof -
  let ?ms = "build_modules loader_project ''/proj''"
  have l: "lists_sets loader_project"
    by (rule lists_sets_remdups) (simp add: loader_project_def plain_fs_def)
  define info where
    "info = \<lparr>path = ''load.py'', imports = data_names, exports = [],
               import_count = 11, imported_by_count = (0::nat)\<rparr>"
  have lb: "?ms = [(''load.py'', info)]"
    unfolding info_def by code_simp
  have m: "(''load.py'', info) \<in> set ?ms" unfolding lb by simp
  have k: "filter (dict_has ?ms) (imports info) = []"
    unfolding lb by (simp add: info_def dict_has_def dict_keys_def data_names_def)
  have nk: "length (filter (\<lambda>i. \<not> dict_has ?ms i) (imports info)) = 11"
    unfolding lb by (simp add: info_def dict_has_def dict_keys_def data_names_def)
  have g: "imported_by_count info
             + (length (filter (dict_has ?ms) (imports info))
                + length (filter (\<lambda>i. \<not> dict_has ?ms i) (imports info))) > 10"
    unfolding k nk by simp
  note t = external_imports_counted_not_followed [OF l refl, of "''/proj''"]
  from t m g have "\<exists>x \<in> set (analyze_coupling ?ms). module x = ''load.py''
      \<and> outgoing x = length (filter (dict_has ?ms) (imports info))
                      + length (filter (\<lambda>i. \<not> dict_has ?ms i) (imports info))"
    by blast
  then obtain x where x: "x \<in> set (analyze_coupling ?ms)" "module x = ''load.py''"
      "outgoing x = length (filter (dict_has ?ms) (imports info))
                      + length (filter (\<lambda>i. \<not> dict_has ?ms i) (imports info))"
    by blast
  from x(3) have "outgoing x = 11" unfolding k nk by simp
  with x m k nk have e: "\<exists>x info. x \<in> set (analyze_coupling ?ms)
          \<and> (''load.py'', info) \<in> set ?ms
          \<and> module x = ''load.py''
          \<and> filter (dict_has ?ms) (imports info) = []
          \<and> length (filter (\<lambda>i. \<not> dict_has ?ms i) (imports info)) = 11
          \<and> outgoing x
              = length (filter (dict_has ?ms) (imports info))
                + length (filter (\<lambda>i. \<not> dict_has ?ms i) (imports info))
          \<and> outgoing x = 11"
    by blast
  from t have "find_circular_dependencies ?ms = find_circular_dependencies (internal_only ?ms)"
    by blast
  with l e show ?thesis by blast
qed

end
